theory Spec2Isabelle
  imports Main
begin

section \<open>JavaScript strings\<close>



text \<open>White space and line terminators of ECMAScript that lie below U+0100.\<close>

definition js_whitespace :: "char \<Rightarrow> bool" where
  "js_whitespace c = (of_char c \<in> {9, 10, 11, 12, 13, 32, 160 :: nat})"

definition trim :: "string \<Rightarrow> string" where
  "trim s = rev (dropWhile js_whitespace (rev (dropWhile js_whitespace s)))"

definition starts_with :: "string \<Rightarrow> string \<Rightarrow> bool" where
  "starts_with s p = (take (length p) s = p)"



fun join :: "string \<Rightarrow> string list \<Rightarrow> string" where
  "join sep [] = []"
| "join sep [x] = x"
| "join sep (x # y # ys) = x @ sep @ join sep (y # ys)"

section \<open>JSON values, \<open>JSON.stringify\<close> and \<open>JSON.parse\<close>\<close>

text \<open>
  The values of the generic data-interchange encoding. Numbers are the integers: a
  number with a fraction or an exponent is a floating-point value and lies outside the
  model, and so does a number literal written with a fraction or an exponent, which
  \<open>JSON_parse\<close> below rejects. An object is the list of its properties in property order.
\<close>

datatype json = JNull | JBool bool | JNum int | JStr string | JArr "json list" | JObj "(string \<times> json) list"

text \<open>A JavaScript value as the caches see it: \<open>None\<close> is \<open>undefined\<close>.\<close>

type_synonym jsvalue = "json option"

definition digit_char :: "nat \<Rightarrow> char" where
  "digit_char d = char_of (48 + d)"

fun digits :: "nat \<Rightarrow> string" where
  "digits n = (if n < 10 then [digit_char n] else digits (n div 10) @ [digit_char (n mod 10)])"

declare digits.simps [simp del]

definition Number_toString :: "int \<Rightarrow> string" where
  "Number_toString i = (if i < 0 then CHR ''-'' # digits (nat (- i)) else digits (nat i))"

definition hex_digit :: "nat \<Rightarrow> char" where
  "hex_digit d = (if d < 10 then char_of (48 + d) else char_of (87 + d))"

text \<open>QuoteJSONString: the two-character escapes, the six-character escape with four
  hexadecimal digits for the other control characters, every other code unit as it is.\<close>

definition escape_char :: "char \<Rightarrow> string" where
  "escape_char c =
     (if c = CHR 0x22 then [CHR 0x5C, CHR 0x22]
      else if c = CHR 0x5C then [CHR 0x5C, CHR 0x5C]
      else if c = CHR 0x08 then [CHR 0x5C, CHR ''b'']
      else if c = CHR 0x0C then [CHR 0x5C, CHR ''f'']
      else if c = CHR 0x0A then [CHR 0x5C, CHR ''n'']
      else if c = CHR 0x0D then [CHR 0x5C, CHR ''r'']
      else if c = CHR 0x09 then [CHR 0x5C, CHR ''t'']
      else if of_char c < (32 :: nat)
        then [CHR 0x5C, CHR ''u'', CHR ''0'', CHR ''0'', hex_digit (of_char c div 16), hex_digit (of_char c mod 16)]
      else [c])"

definition quote :: "string \<Rightarrow> string" where
  "quote s = CHR 0x22 # concat (map escape_char s) @ [CHR 0x22]"

fun JSON_stringify :: "json \<Rightarrow> string" where
  "JSON_stringify JNull = ''null''"
| "JSON_stringify (JBool b) = (if b then ''true'' else ''false'')"
| "JSON_stringify (JNum n) = Number_toString n"
| "JSON_stringify (JStr s) = quote s"
| "JSON_stringify (JArr xs) = ''['' @ join '','' (map JSON_stringify xs) @ '']''"
| "JSON_stringify (JObj ms) = ''{'' @ join '','' (map (\<lambda>(k, v). quote k @ '':'' @ JSON_stringify v) ms) @ ''}''"

definition json_ws :: "char \<Rightarrow> bool" where
  "json_ws c = (c = CHR 0x20 \<or> c = CHR 0x09 \<or> c = CHR 0x0A \<or> c = CHR 0x0D)"

definition skip_ws :: "string \<Rightarrow> string" where
  "skip_ws s = dropWhile json_ws s"

definition is_digit :: "char \<Rightarrow> bool" where
  "is_digit c = (48 \<le> (of_char c :: nat) \<and> (of_char c :: nat) \<le> 57)"

definition digits_val :: "string \<Rightarrow> int" where
  "digits_val s = foldl (\<lambda>a c. 10 * a + (int (of_char c) - 48)) 0 s"

definition hex_val :: "char \<Rightarrow> nat option" where
  "hex_val c =
     (let n = of_char c :: nat in
      if 48 \<le> n \<and> n \<le> 57 then Some (n - 48)
      else if 97 \<le> n \<and> n \<le> 102 then Some (n - 87)
      else if 65 \<le> n \<and> n \<le> 70 then Some (n - 55)
      else None)"

definition hex4 :: "string \<Rightarrow> nat option" where
  "hex4 hs =
     (case map hex_val hs of
        [Some a, Some b, Some c, Some d] \<Rightarrow> Some (((a * 16 + b) * 16 + c) * 16 + d)
      | _ \<Rightarrow> None)"

definition unescape :: "char \<Rightarrow> char option" where
  "unescape e =
     (if e = CHR 0x22 then Some (CHR 0x22)
      else if e = CHR 0x5C then Some (CHR 0x5C)
      else if e = CHR ''/'' then Some (CHR ''/'')
      else if e = CHR ''b'' then Some (CHR 0x08)
      else if e = CHR ''f'' then Some (CHR 0x0C)
      else if e = CHR ''n'' then Some (CHR 0x0A)
      else if e = CHR ''r'' then Some (CHR 0x0D)
      else if e = CHR ''t'' then Some (CHR 0x09)
      else None)"

text \<open>
  The body of a string literal, after its opening quote: the characters up to the closing
  quote, decoded, and the text behind it. A raw control character is a syntax error; a
  hexadecimal escape of a code unit from 256 on denotes a string outside the model.
\<close>

fun parse_chars :: "string \<Rightarrow> (string \<times> string) option" where
  "parse_chars [] = None"
| "parse_chars (c # cs) =
    (if c = CHR 0x22 then Some ([], cs)
     else if c = CHR 0x5C then
       (case cs of
          [] \<Rightarrow> None
        | e # cs1 \<Rightarrow>
           if e = CHR ''u'' then
             (case cs1 of
                h1 # h2 # h3 # h4 # cs2 \<Rightarrow>
                  (case hex4 [h1, h2, h3, h4] of
                     Some n \<Rightarrow>
                       if n < 256
                       then map_option (\<lambda>(s, rest). (char_of n # s, rest)) (parse_chars cs2)
                       else None
                   | None \<Rightarrow> None)
              | _ \<Rightarrow> None)
           else (case unescape e of
                   Some ch \<Rightarrow> map_option (\<lambda>(s, rest). (ch # s, rest)) (parse_chars cs1)
                 | None \<Rightarrow> None))
     else if (of_char c :: nat) < 32 then None
     else map_option (\<lambda>(s, rest). (c # s, rest)) (parse_chars cs))"

text \<open>An integer literal: an optional minus sign, then \<open>0\<close> or a digit from 1 to 9
  followed by digits.\<close>

definition parse_number :: "string \<Rightarrow> (json \<times> string) option" where
  "parse_number s =
     (let neg = starts_with s ''-''; s1 = (if neg then tl s else s) in
      case s1 of
        [] \<Rightarrow> None
      | c # cs \<Rightarrow>
          if c = CHR ''0'' then Some (JNum 0, cs)
          else if is_digit c
            then Some (JNum ((if neg then - 1 else 1) * digits_val (takeWhile is_digit s1)),
                       dropWhile is_digit s1)
          else None)"

definition parse_scalar :: "string \<Rightarrow> (json \<times> string) option" where
  "parse_scalar s =
     (if starts_with s [CHR 0x22] then map_option (\<lambda>(str, rest). (JStr str, rest)) (parse_chars (tl s))
      else if starts_with s ''true'' then Some (JBool True, drop 4 s)
      else if starts_with s ''false'' then Some (JBool False, drop 5 s)
      else if starts_with s ''null'' then Some (JNull, drop 4 s)
      else parse_number s)"

text \<open>What follows an element of an array or a member of an object: a comma and the
  next one, or the closing bracket.\<close>

datatype separator = More string | Done string | Bad

definition separator :: "char \<Rightarrow> string \<Rightarrow> separator" where
  "separator close s =
     (case skip_ws s of
        [] \<Rightarrow> Bad
      | d # ds \<Rightarrow> if d = CHR '','' then More (skip_ws ds) else if d = close then Done ds else Bad)"

definition member_key :: "string \<Rightarrow> (string \<times> string) option" where
  "member_key s =
     (case s of
        [] \<Rightarrow> None
      | q # cs \<Rightarrow>
          if q \<noteq> CHR 0x22 then None
          else (case parse_chars cs of
                  None \<Rightarrow> None
                | Some (k, rest) \<Rightarrow>
                    (case skip_ws rest of
                       [] \<Rightarrow> None
                     | col # rest1 \<Rightarrow> if col = CHR '':'' then Some (k, skip_ws rest1) else None)))"

section \<open>Objects as dictionaries\<close>

text \<open>
  An object whose prototype is \<open>null\<close> (\<open>Object.create(null)\<close>) has its own properties
  and nothing else: every string is an ordinary key. It is modelled as the list of its
  properties in the order \<open>for ... in\<close>, \<open>Object.keys\<close> and \<open>Object.entries\<close> enumerate
  them: the array indices in ascending numeric order first, then the other keys in the
  order of their creation.
\<close>

type_synonym 'v dict = "(string \<times> 'v) list"

definition is_array_index :: "string \<Rightarrow> bool" where
  "is_array_index k =
     (k \<noteq> [] \<and> list_all is_digit k \<and> (if hd k = CHR ''0'' then k = ''0'' else True)
      \<and> digits_val k < 4294967295)"

fun insert_index :: "string \<Rightarrow> 'v \<Rightarrow> 'v dict \<Rightarrow> 'v dict" where
  "insert_index k v [] = [(k, v)]"
| "insert_index k v ((k', v') # d) =
     (if is_array_index k' \<and> digits_val k' < digits_val k
      then (k', v') # insert_index k v d
      else (k, v) # (k', v') # d)"

text \<open>\<open>d[k] = v\<close>: an existing property keeps its place, a new one takes the place its key
  gives it.\<close>

definition prop_set :: "'v dict \<Rightarrow> string \<Rightarrow> 'v \<Rightarrow> 'v dict" where
  "prop_set d k v =
     (if map_of d k \<noteq> None then map (\<lambda>(k', v'). if k' = k then (k', v) else (k', v')) d
      else if is_array_index k then insert_index k v d
      else d @ [(k, v)])"

text \<open>\<open>delete d[k]\<close>.\<close>

definition prop_delete :: "'v dict \<Rightarrow> string \<Rightarrow> 'v dict" where
  "prop_delete d k = filter (\<lambda>(k', v'). k' \<noteq> k) d"

text \<open>The object that results from defining the given properties one after the other.\<close>

definition js_object :: "(string \<times> 'v) list \<Rightarrow> 'v dict" where
  "js_object ms = foldl (\<lambda>d (k, v). prop_set d k v) [] ms"

text \<open>
  The recursive descent of \<open>JSON.parse\<close>. The first argument bounds the number of
  nested calls; \<open>JSON_parse\<close> starts it above the length of the text.
\<close>

fun parse_value :: "nat \<Rightarrow> string \<Rightarrow> (json \<times> string) option"
and parse_elements :: "nat \<Rightarrow> string \<Rightarrow> (json list \<times> string) option"
and parse_members :: "nat \<Rightarrow> string \<Rightarrow> ((string \<times> json) list \<times> string) option"
where
  "parse_value 0 s = None"
| "parse_value (Suc n) s =
     (if starts_with s ''['' then
        (if starts_with (skip_ws (tl s)) '']'' then Some (JArr [], tl (skip_ws (tl s)))
         else map_option (\<lambda>(xs, rest). (JArr xs, rest)) (parse_elements n (skip_ws (tl s))))
      else if starts_with s ''{'' then
        (if starts_with (skip_ws (tl s)) ''}'' then Some (JObj [], tl (skip_ws (tl s)))
         else map_option (\<lambda>(ms, rest). (JObj (js_object ms), rest)) (parse_members n (skip_ws (tl s))))
      else parse_scalar s)"
| "parse_elements 0 s = None"
| "parse_elements (Suc n) s =
     (case parse_value n s of
        None \<Rightarrow> None
      | Some (v, rest) \<Rightarrow>
          (case separator (CHR '']'') rest of
             More rest' \<Rightarrow> map_option (\<lambda>(vs, r). (v # vs, r)) (parse_elements n rest')
           | Done rest' \<Rightarrow> Some ([v], rest')
           | Bad \<Rightarrow> None))"
| "parse_members 0 s = None"
| "parse_members (Suc n) s =
     (case member_key s of
        None \<Rightarrow> None
      | Some (k, rest) \<Rightarrow>
          (case parse_value n rest of
             None \<Rightarrow> None
           | Some (v, rest1) \<Rightarrow>
               (case separator (CHR ''}'') rest1 of
                  More rest' \<Rightarrow> map_option (\<lambda>(ms, r). ((k, v) # ms, r)) (parse_members n rest')
                | Done rest' \<Rightarrow> Some ([(k, v)], rest')
                | Bad \<Rightarrow> None)))"

text \<open>\<open>JSON.parse\<close>: \<open>None\<close> is the SyntaxError it throws.\<close>

definition JSON_parse :: "string \<Rightarrow> json option" where
  "JSON_parse s =
     (case parse_value (Suc (length s)) (skip_ws s) of
        Some (v, rest) \<Rightarrow> if skip_ws rest = [] then Some v else None
      | None \<Rightarrow> None)"

text \<open>
  The lists that are values: an object lists its properties as an object built from them
  would, so no key twice and the array indices first.
\<close>

fun wf_json :: "json \<Rightarrow> bool" where
  "wf_json (JArr xs) = list_all wf_json xs"
| "wf_json (JObj ms) = (js_object ms = ms \<and> list_all (\<lambda>m. wf_json (snd m)) ms)"
| "wf_json v = True"



section \<open>The Store\<close>

text \<open>
  \<open>Dict<Dict<any>>\<close>, created by \<open>Object.create(null)\<close>: a dictionary of tables, each a
  dictionary from keys to values. \<open>entry\<close> reads the own property \<open>store[name][key]\<close>,
  \<open>None\<close> when the table or the key is missing.
\<close>

type_synonym table = "jsvalue dict"

type_synonym store = "table dict"

definition entry :: "store \<Rightarrow> string \<Rightarrow> string \<Rightarrow> jsvalue option" where
  "entry s name key = (case map_of s name of None \<Rightarrow> None | Some t \<Rightarrow> map_of t key)"

section \<open>The INI codec\<close>












text \<open>
  \<open>INI.stringify\<close>. In the template literal \<open>JSON.stringify\<close> of \<open>undefined\<close>, which is
  \<open>undefined\<close>, prints as the word.
\<close>

definition ini_value_text :: "jsvalue \<Rightarrow> string" where
  "ini_value_text v = (case v of None \<Rightarrow> ''undefined'' | Some j \<Rightarrow> JSON_stringify j)"

fun ini_keys :: "table \<Rightarrow> string" where
  "ini_keys [] = []"
| "ini_keys ((key, v) # rest) = key @ '' = '' @ ini_value_text v @ [CHR 0x0A] @ ini_keys rest"

fun INI_stringify :: "store \<Rightarrow> string" where
  "INI_stringify [] = []"
| "INI_stringify ((section, t) # rest) =
     ''['' @ section @ '']'' @ [CHR 0x0A] @ ini_keys t @ [CHR 0x0A] @ INI_stringify rest"

section \<open>The file-backed caches\<close>

text \<open>
  \<open>TxtDBCache\<close> and \<open>IniDBCache\<close> hold the same state and have the same \<open>write\<close>,
  \<open>table\<close>, \<open>clear\<close>, \<open>get\<close>, \<open>set\<close> and \<open>delete\<close>; they differ in \<open>init\<close> and in what \<open>flush\<close>
  writes. The state of the model is the object (\<open>store\<close>, \<open>debounce\<close>) together with what
  it acts on: the timers of the host (handle and due time, in milliseconds), the clock,
  the persistence file, and the log. \<open>flushed\<close> records the contents handed to
  \<open>fs.writeFile\<close>, oldest first, whether or not the write succeeded.
\<close>

record cache =
  store :: store
  debounce :: "nat option"
  timers :: "(nat \<times> nat) list"
  next_timer :: nat
  clock :: nat
  disk :: "string option"
  disk_fails :: bool
  flushed :: "string list"
  warnings :: "string list"

definition setTimeout :: "nat \<Rightarrow> cache \<Rightarrow> nat \<times> cache" where
  "setTimeout delay c =
     (next_timer c,
      c\<lparr>timers := timers c @ [(next_timer c, clock c + delay)], next_timer := Suc (next_timer c)\<rparr>)"

definition clearTimeout :: "nat \<Rightarrow> cache \<Rightarrow> cache" where
  "clearTimeout h c = c\<lparr>timers := filter (\<lambda>(h', due). h' \<noteq> h) (timers c)\<rparr>"

text \<open>\<open>write()\<close>: \<open>if (this._debounce) clearTimeout(this._debounce)\<close>, then a new timer of
  1000 ms. A \<open>Timeout\<close> object is never falsy, so the test is \<open>debounce \<noteq> null\<close>.\<close>

definition cache_write :: "cache \<Rightarrow> cache" where
  "cache_write c =
     (let c1 = (case debounce c of Some h \<Rightarrow> clearTimeout h c | None \<Rightarrow> c);
          (h, c2) = setTimeout 1000 c1
      in c2\<lparr>debounce := Some h\<rparr>)"

text \<open>\<open>flush()\<close>, with the serializer of the backend as a parameter: a failed write is
  logged and swallowed.\<close>

definition cache_flush :: "(store \<Rightarrow> string) \<Rightarrow> cache \<Rightarrow> cache" where
  "cache_flush serialize c =
     (let c1 = c\<lparr>debounce := None\<rparr>;
          content = serialize (store c1);
          c2 = c1\<lparr>flushed := flushed c1 @ [content]\<rparr>
      in if disk_fails c2 then c2\<lparr>warnings := warnings c2 @ [''failed to write cache file'']\<rparr>
         else c2\<lparr>disk := Some content\<rparr>)"

text \<open>\<open>table(name)\<close>: \<open>this.store[name] ??= Object.create(null)\<close>. The store changes when
  the table is created, so the new state is returned with the table.\<close>

definition cache_table :: "cache \<Rightarrow> string \<Rightarrow> cache \<times> table" where
  "cache_table c name =
     (case map_of (store c) name of
        Some t \<Rightarrow> (c, t)
      | None \<Rightarrow> (c\<lparr>store := prop_set (store c) name []\<rparr>, []))"

definition cache_clear :: "cache \<Rightarrow> string \<Rightarrow> cache" where
  "cache_clear c name = cache_write (c\<lparr>store := prop_delete (store c) name\<rparr>)"

definition cache_get :: "cache \<Rightarrow> string \<Rightarrow> string \<Rightarrow> cache \<times> jsvalue" where
  "cache_get c name key =
     (let (c1, t) = cache_table c name
      in (c1, case map_of t key of Some v \<Rightarrow> v | None \<Rightarrow> None))"

definition cache_set :: "cache \<Rightarrow> string \<Rightarrow> string \<Rightarrow> jsvalue \<Rightarrow> cache" where
  "cache_set c name key v =
     (let (c1, t) = cache_table c name
      in cache_write (c1\<lparr>store := prop_set (store c1) name (prop_set t key v)\<rparr>))"

definition cache_delete :: "cache \<Rightarrow> string \<Rightarrow> string \<Rightarrow> cache" where
  "cache_delete c name key =
     (let (c1, t) = cache_table c name
      in cache_write (c1\<lparr>store := prop_set (store c1) name (prop_delete t key)\<rparr>))"

definition cache_entries :: "cache \<Rightarrow> string \<Rightarrow> cache \<times> (string \<times> jsvalue) list" where
  "cache_entries c name = cache_table c name"

text \<open>The \<open>dispose\<close> hook of the constructor.\<close>

definition cache_dispose :: "(store \<Rightarrow> string) \<Rightarrow> cache \<Rightarrow> cache" where
  "cache_dispose serialize c =
     (case debounce c of
        Some h \<Rightarrow> cache_flush serialize (clearTimeout h c)
      | None \<Rightarrow> c)"

text \<open>
  The host's side of a timer: when the timer with handle \<open>h\<close> expires it leaves the
  host's table and its callback \<open>() => this.flush()\<close> runs. \<open>advance\<close> lets the time pass
  to \<open>t\<close>: the timers due by then expire, in the order of their creation.
\<close>

definition expire :: "(store \<Rightarrow> string) \<Rightarrow> nat \<Rightarrow> cache \<Rightarrow> cache" where
  "expire serialize h c = cache_flush serialize (clearTimeout h c)"

definition advance :: "(store \<Rightarrow> string) \<Rightarrow> nat \<Rightarrow> cache \<Rightarrow> cache" where
  "advance serialize t c =
     (foldl (\<lambda>c' (h, due). expire serialize h c') c (filter (\<lambda>(h, due). due \<le> t) (timers c)))
       \<lparr>clock := max (clock c) t\<rparr>"

text \<open>A mutating call, and a run of such calls, each at its time.\<close>

datatype mutation = ClearCall string | SetCall string string jsvalue | DeleteCall string string

fun mutate :: "mutation \<Rightarrow> cache \<Rightarrow> cache" where
  "mutate (ClearCall name) c = cache_clear c name"
| "mutate (SetCall name key v) c = cache_set c name key v"
| "mutate (DeleteCall name key) c = cache_delete c name key"

fun run_calls :: "(store \<Rightarrow> string) \<Rightarrow> (nat \<times> mutation) list \<Rightarrow> cache \<Rightarrow> cache" where
  "run_calls serialize [] c = c"
| "run_calls serialize ((t, m) # rest) c = run_calls serialize rest (mutate m (advance serialize t c))"

text \<open>
  The timers of the host that belong to the cache are the pending flush and nothing else:
  this holds when the cache is constructed and every operation keeps it.
\<close>

definition pending_ok :: "cache \<Rightarrow> bool" where
  "pending_ok c = (case debounce c of None \<Rightarrow> timers c = [] | Some h \<Rightarrow> map fst (timers c) = [h])"

text \<open>No timer is due at time \<open>t\<close> or before.\<close>

definition quiet_until :: "nat \<Rightarrow> cache \<Rightarrow> bool" where
  "quiet_until t c = list_all (\<lambda>(h, due). t < due) (timers c)"

text \<open>Calls in the order of their times, each less than 1000 ms after the one before
  it (the first after \<open>prev\<close>).\<close>

fun burst :: "nat \<Rightarrow> (nat \<times> mutation) list \<Rightarrow> bool" where
  "burst prev [] = True"
| "burst prev ((t, m) # rest) = (prev \<le> t \<and> t < prev + 1000 \<and> burst t rest)"

text \<open>The state a constructor leaves before \<open>init\<close> has read the file.\<close>

definition new_cache :: "string option \<Rightarrow> cache" where
  "new_cache file =
     \<lparr>store = [], debounce = None, timers = [], next_timer = 0, clock = 0,
      disk = file, disk_fails = False, flushed = [], warnings = []\<rparr>"

subsection \<open>\<open>IniDBCache\<close>\<close>




subsection \<open>\<open>TxtDBCache\<close>\<close>

text \<open>\<open>JSON.stringify([tableName, key, value])\<close>: \<open>undefined\<close> in an array prints as
  \<open>null\<close>.\<close>

definition txt_record :: "string \<Rightarrow> string \<Rightarrow> jsvalue \<Rightarrow> string" where
  "txt_record tableName key v =
     JSON_stringify (JArr [JStr tableName, JStr key, (case v of None \<Rightarrow> JNull | Some j \<Rightarrow> j)])"

fun txt_table :: "string \<Rightarrow> table \<Rightarrow> string" where
  "txt_table tableName [] = []"
| "txt_table tableName ((key, v) # rest) = txt_record tableName key v @ [CHR 0x0A] @ txt_table tableName rest"

fun txtContent :: "store \<Rightarrow> string" where
  "txtContent [] = []"
| "txtContent ((tableName, t) # rest) = txt_table tableName t @ txtContent rest"








section \<open>The embedded backend\<close>

text \<open>
  Modelled from the spec: the key-value engine (the package \<open>level\<close>) is not among the
  sources. Each table is an independent namespace keyed by the table name, a value is
  kept in the JSON encoding the constructor asks for (\<open>valueEncoding: 'json'\<close>), a
  lookup of a missing key reports the error with the code \<open>LEVEL_NOT_FOUND\<close>, and any
  operation may report another error. \<open>fault\<close> is that error for the operations on a
  namespace, \<open>None\<close> when the engine serves them.
\<close>

record level_error =
  code :: string

record level_db =
  fault :: "string \<Rightarrow> level_error option"
  sublevels :: "string \<Rightarrow> (string \<rightharpoonup> string)"

definition sublevel_get :: "level_db \<Rightarrow> string \<Rightarrow> string \<Rightarrow> level_error + json" where
  "sublevel_get db name key =
     (case fault db name of
        Some e \<Rightarrow> Inl e
      | None \<Rightarrow>
          (case sublevels db name key of
             None \<Rightarrow> Inl \<lparr>code = ''LEVEL_NOT_FOUND''\<rparr>
           | Some encoded \<Rightarrow>
               (case JSON_parse encoded of
                  Some v \<Rightarrow> Inr v
                | None \<Rightarrow> Inl \<lparr>code = ''LEVEL_DECODE_ERROR''\<rparr>)))"

definition sublevel_put :: "level_db \<Rightarrow> string \<Rightarrow> string \<Rightarrow> json \<Rightarrow> level_error + level_db" where
  "sublevel_put db name key v =
     (case fault db name of
        Some e \<Rightarrow> Inl e
      | None \<Rightarrow> Inr (db\<lparr>sublevels := (sublevels db)(name := (sublevels db name)(key \<mapsto> JSON_stringify v))\<rparr>))"

definition sublevel_del :: "level_db \<Rightarrow> string \<Rightarrow> string \<Rightarrow> level_error + level_db" where
  "sublevel_del db name key =
     (case fault db name of
        Some e \<Rightarrow> Inl e
      | None \<Rightarrow> Inr (db\<lparr>sublevels := (sublevels db)(name := (sublevels db name)(key := None))\<rparr>))"

definition sublevel_clear :: "level_db \<Rightarrow> string \<Rightarrow> level_error + level_db" where
  "sublevel_clear db name =
     (case fault db name of
        Some e \<Rightarrow> Inl e
      | None \<Rightarrow> Inr (db\<lparr>sublevels := (sublevels db)(name := Map.empty)\<rparr>))"

text \<open>The methods of \<open>LevelDBCache\<close>; \<open>Inl\<close> is the error the method throws.\<close>

definition LevelDBCache_get :: "level_db \<Rightarrow> string \<Rightarrow> string \<Rightarrow> level_error + jsvalue" where
  "LevelDBCache_get db name key =
     (case sublevel_get db name key of
        Inr v \<Rightarrow> Inr (Some v)
      | Inl error \<Rightarrow> if code error = ''LEVEL_NOT_FOUND'' then Inr None else Inl error)"

definition LevelDBCache_set :: "level_db \<Rightarrow> string \<Rightarrow> string \<Rightarrow> json \<Rightarrow> level_error + level_db" where
  "LevelDBCache_set db name key v = sublevel_put db name key v"

definition LevelDBCache_delete :: "level_db \<Rightarrow> string \<Rightarrow> string \<Rightarrow> level_error + level_db" where
  "LevelDBCache_delete db name key = sublevel_del db name key"

definition LevelDBCache_clear :: "level_db \<Rightarrow> string \<Rightarrow> level_error + level_db" where
  "LevelDBCache_clear db name = sublevel_clear db name"

text \<open>An engine that serves every namespace and holds nothing.\<close>

definition new_level :: level_db where
  "new_level = \<lparr>fault = (\<lambda>name. None), sublevels = (\<lambda>name. Map.empty)\<rparr>"

section \<open>\<open>forEach\<close>\<close>

text \<open>
  What a call of the callback does: it throws, or it returns an \<open>Awaitable\<close>, which in
  the end is fulfilled (a value that is no promise counts as fulfilled), is rejected, or
  never settles. The model keeps the order of the calls and these outcomes, not the
  times at which the promises settle.
\<close>

datatype 'e settlement = Fulfilled | Rejected 'e | Pending

datatype 'e invocation = Throws 'e | Returns "'e settlement"

text \<open>
  What the promise of \<open>forEach\<close> does: \<open>Rejects es\<close> when it is rejected, with the error of
  whichever failed invocation of \<open>es\<close> is reported first.
\<close>

datatype 'e aggregate = Fulfils | Rejects "'e list" | NeverSettles

text \<open>The loop \<open>for await (const [key, value] of this.entries(table))
  tasks.push(callback(value, key))\<close>: the tasks pushed and the calls made, or the error
  a call threw.\<close>

fun launch ::
  "(jsvalue \<Rightarrow> string \<Rightarrow> 'e invocation) \<Rightarrow> (string \<times> jsvalue) list \<Rightarrow> 'e settlement list
    \<Rightarrow> (jsvalue \<times> string) list \<Rightarrow> ('e + 'e settlement list) \<times> (jsvalue \<times> string) list" where
  "launch callback [] tasks calls = (Inr tasks, calls)"
| "launch callback ((key, v) # rest) tasks calls =
     (case callback v key of
        Throws e \<Rightarrow> (Inl e, calls @ [(v, key)])
      | Returns task \<Rightarrow> launch callback rest (tasks @ [task]) (calls @ [(v, key)]))"

definition rejections :: "'e settlement list \<Rightarrow> 'e list" where
  "rejections tasks = List.map_filter (\<lambda>t. case t of Rejected e \<Rightarrow> Some e | _ \<Rightarrow> None) tasks"

definition Promise_all :: "'e settlement list \<Rightarrow> 'e aggregate" where
  "Promise_all tasks =
     (if rejections tasks \<noteq> [] then Rejects (rejections tasks)
      else if Pending \<in> set tasks then NeverSettles
      else Fulfils)"

text \<open>\<open>forEach\<close>, from the entries that \<open>this.entries(table)\<close> yields: the calls it made
  (value and key, in order) and what its promise does.\<close>

definition forEach ::
  "(string \<times> jsvalue) list \<Rightarrow> (jsvalue \<Rightarrow> string \<Rightarrow> 'e invocation) \<Rightarrow> (jsvalue \<times> string) list \<times> 'e aggregate" where
  "forEach entries callback =
     (case launch callback entries [] [] of
        (Inl e, calls) \<Rightarrow> (calls, Rejects [e])
      | (Inr tasks, calls) \<Rightarrow> (calls, Promise_all tasks))"

section \<open>Auxiliary notions of the proofs\<close>

text \<open>A text behind a number literal that does not continue it.\<close>

definition number_end :: "string \<Rightarrow> bool" where
  "number_end rest = (case rest of [] \<Rightarrow> True | c # cs \<Rightarrow> \<not> is_digit c)"

abbreviation member_text :: "string \<times> json \<Rightarrow> string" where
  "member_text \<equiv> (\<lambda>(k, v). quote k @ '':'' @ JSON_stringify v)"


section \<open>Stores and the texts of the two codecs\<close>









section \<open>\<open>JSON.parse\<close> inverts \<open>JSON.stringify\<close>\<close>

lemma of_char_digit_char: "d < 10 \<Longrightarrow> of_char (digit_char d) = 48 + d"
  by (simp add: digit_char_def)

lemma is_digit_digit_char: "d < 10 \<Longrightarrow> is_digit (digit_char d)"
  by (simp add: is_digit_def of_char_digit_char)

lemma digits_all: "list_all is_digit (digits n)"
proof (induction n rule: digits.induct)
  case (1 n)
  then show ?case
    by (subst digits.simps) (simp add: is_digit_digit_char)
qed

lemma digits_nonempty: "digits n \<noteq> []"
  by (subst digits.simps) simp

lemma digits_val_append: "digits_val (xs @ [c]) = 10 * digits_val xs + (int (of_char c) - 48)"
  by (simp add: digits_val_def)

lemma digits_val_digits: "digits_val (digits n) = int n"
proof (induction n rule: digits.induct)
  case (1 n)
  show ?case
  proof (cases "n < 10")
    case True
    then show ?thesis
      by (subst digits.simps) (simp add: digits_val_def of_char_digit_char)
  next
    case False
    then have "digits_val (digits n) = 10 * digits_val (digits (n div 10)) + int (n mod 10)"
      by (subst digits.simps) (simp add: digits_val_append of_char_digit_char)
    also have "\<dots> = 10 * int (n div 10) + int (n mod 10)"
      using False 1 by simp
    also have "\<dots> = int n"
      by presburger
    finally show ?thesis .
  qed
qed

lemma digit_char_zero: "d < 10 \<Longrightarrow> digit_char d = CHR ''0'' \<longleftrightarrow> d = 0"
proof -
  assume d: "d < 10"
  have "digit_char d = CHR ''0'' \<longleftrightarrow> (of_char (digit_char d) :: nat) = of_char (CHR ''0'')"
    by (simp only: of_char_eq_iff)
  also have "\<dots> \<longleftrightarrow> d = 0"
    using d by (simp add: of_char_digit_char)
  finally show ?thesis .
qed

lemma hd_digits_zero: "hd (digits n) = CHR ''0'' \<longleftrightarrow> n = 0"
proof (induction n rule: digits.induct)
  case (1 n)
  show ?case
  proof (cases "n < 10")
    case True
    then show ?thesis
      by (subst digits.simps) (simp add: digit_char_zero)
  next
    case False
    then have "hd (digits n) = hd (digits (n div 10))"
      by (subst digits.simps) (simp add: digits_nonempty)
    with False 1 show ?thesis by auto
  qed
qed

lemma takeWhile_digits:
  assumes "list_all is_digit ds" and "rest = [] \<or> \<not> is_digit (hd rest)"
  shows "takeWhile is_digit (ds @ rest) = ds" and "dropWhile is_digit (ds @ rest) = rest"
  using assms by (induction ds) (auto simp: neq_Nil_conv takeWhile_eq_Nil_iff dropWhile_eq_self_iff)

lemma not_digit_minus: "\<not> is_digit (CHR ''-'')" 
  by (simp add: is_digit_def)

lemma parse_number_toString:
  assumes "rest = [] \<or> \<not> is_digit (hd rest)"
  shows "parse_number (Number_toString i @ rest) = Some (JNum i, rest)"
proof -
  consider (neg) "i < 0" | (zero) "i = 0" | (pos) "0 < i" by linarith
  then show ?thesis
  proof cases
    case neg
    define n where "n = nat (- i)"
    obtain d ds where dd: "digits n = d # ds"
      using digits_nonempty [of n] by (cases "digits n") auto
    have n0: "n \<noteq> 0" using neg by (simp add: n_def)
    then have d0: "d \<noteq> CHR ''0''" using hd_digits_zero [of n] dd by simp
    have dg: "is_digit d" using digits_all [of n] dd by simp
    have tw: "takeWhile is_digit (d # ds @ rest) = d # ds" "dropWhile is_digit (d # ds @ rest) = rest"
      using takeWhile_digits [OF digits_all [of n] assms] dd by simp_all
    have val: "digits_val (d # ds) = int n" using digits_val_digits [of n] dd by simp
    show ?thesis
      using neg d0 dg tw val
      by (simp add: parse_number_def Number_toString_def starts_with_def dd n_def [symmetric])
        (simp add: n_def)
  next
    case zero
    have "digits 0 = ''0''" by (subst digits.simps) (simp add: digit_char_zero)
    then show ?thesis using zero
      by (simp add: parse_number_def Number_toString_def starts_with_def)
  next
    case pos
    define n where "n = nat i"
    obtain d ds where dd: "digits n = d # ds"
      using digits_nonempty [of n] by (cases "digits n") auto
    have n0: "n \<noteq> 0" using pos by (simp add: n_def)
    then have d0: "d \<noteq> CHR ''0''" using hd_digits_zero [of n] dd by simp
    have dg: "is_digit d" using digits_all [of n] dd by simp
    then have dm: "d \<noteq> CHR ''-''" using not_digit_minus by auto
    have tw: "takeWhile is_digit (d # ds @ rest) = d # ds" "dropWhile is_digit (d # ds @ rest) = rest"
      using takeWhile_digits [OF digits_all [of n] assms] dd by simp_all
    have val: "digits_val (d # ds) = int n" using digits_val_digits [of n] dd by simp
    show ?thesis
      using pos d0 dg dm tw val
      by (simp add: parse_number_def Number_toString_def starts_with_def dd n_def [symmetric])
        (simp add: n_def)
  qed
qed


lemma of_char_hex_digit: "d < 16 \<Longrightarrow> of_char (hex_digit d) = (if d < 10 then 48 + d else 87 + d)"
  by (simp add: hex_digit_def)

lemma hex_val_hex_digit: "d < 16 \<Longrightarrow> hex_val (hex_digit d) = Some d"
  by (simp add: hex_val_def of_char_hex_digit Let_def)

lemma hex4_escape:
  fixes n :: nat
  assumes "n < 256"
  shows "hex4 [CHR ''0'', CHR ''0'', hex_digit (n div 16), hex_digit (n mod 16)] = Some n"
proof -
  have "n div 16 < 16" using assms by simp
  moreover have "n mod 16 < 16" by simp
  moreover have "hex_val (CHR ''0'') = Some 0" by (simp add: hex_val_def)
  ultimately show ?thesis
    by (simp add: hex4_def hex_val_hex_digit)
qed

lemma parse_chars_escape:
  "parse_chars (escape_char c @ rest) = map_option (\<lambda>(s, r). (c # s, r)) (parse_chars rest)"
proof -
  consider (special) "c \<in> {CHR 0x22, CHR 0x5C, CHR 0x08, CHR 0x0C, CHR 0x0A, CHR 0x0D, CHR 0x09}"
    | (control) "c \<notin> {CHR 0x22, CHR 0x5C, CHR 0x08, CHR 0x0C, CHR 0x0A, CHR 0x0D, CHR 0x09}" "(of_char c :: nat) < 32"
    | (plain) "c \<notin> {CHR 0x22, CHR 0x5C, CHR 0x08, CHR 0x0C, CHR 0x0A, CHR 0x0D, CHR 0x09}" "\<not> (of_char c :: nat) < 32"
    by blast
  then show ?thesis
  proof cases
    case special
    then show ?thesis
      by (auto simp: escape_char_def unescape_def split: option.splits)
  next
    case control
    have "hex4 [CHR ''0'', CHR ''0'', hex_digit (of_char c div 16), hex_digit (of_char c mod 16)] = Some (of_char c)"
      by (rule hex4_escape) simp
    then show ?thesis using control
      by (auto simp: escape_char_def split: option.splits)
  next
    case plain
    then show ?thesis
      by (auto simp: escape_char_def split: option.splits)
  qed
qed

lemma parse_chars_quoted:
  "parse_chars (concat (map escape_char s) @ CHR 0x22 # rest) = Some (s, rest)"
  by (induction s) (simp_all add: parse_chars_escape)

lemma number_end_iff: "number_end rest \<longleftrightarrow> rest = [] \<or> \<not> is_digit (hd rest)"
  by (cases rest) (simp_all add: number_end_def)

lemma is_digit_not:
  assumes "is_digit c"
  shows "\<not> json_ws c" "c \<noteq> CHR ''['' " "c \<noteq> CHR ''{''" "c \<noteq> CHR 0x22" "c \<noteq> CHR ''t''"
    "c \<noteq> CHR ''f''" "c \<noteq> CHR ''n''" "c \<noteq> CHR ''-''" "c \<noteq> CHR '',''" "c \<noteq> CHR '']''" "c \<noteq> CHR ''}''"
  using assms by (auto simp: is_digit_def json_ws_def)

lemma Number_toString_Cons:
  obtains c cs where "Number_toString i = c # cs" "c = CHR ''-'' \<or> is_digit c"
proof (cases "i < 0")
  case True
  then show ?thesis using that by (simp add: Number_toString_def)
next
  case False
  obtain d ds where dd: "digits (nat i) = d # ds"
    using digits_nonempty [of "nat i"] by (cases "digits (nat i)") auto
  then have "is_digit d" using digits_all [of "nat i"] by simp
  with dd False show ?thesis using that by (simp add: Number_toString_def)
qed

lemma stringify_Cons: "\<exists>c cs. JSON_stringify v = c # cs \<and> \<not> json_ws c"
proof (cases v)
  case (JNum i)
  obtain c cs where "Number_toString i = c # cs" "c = CHR ''-'' \<or> is_digit c"
    by (rule Number_toString_Cons)
  then show ?thesis using JNum is_digit_not(1) [of c] by (auto simp: json_ws_def)
qed (simp_all add: json_ws_def quote_def)

lemma skip_ws_stringify: "skip_ws (JSON_stringify v @ rest) = JSON_stringify v @ rest"
proof -
  obtain c cs where "JSON_stringify v = c # cs" "\<not> json_ws c"
    using stringify_Cons by blast
  then show ?thesis by (simp add: skip_ws_def)
qed

lemma parse_scalar_stringify:
  assumes "number_end rest" and "\<forall>xs. v \<noteq> JArr xs" and "\<forall>ms. v \<noteq> JObj ms"
  shows "parse_scalar (JSON_stringify v @ rest) = Some (v, rest)
      \<and> \<not> starts_with (JSON_stringify v @ rest) ''[''
      \<and> \<not> starts_with (JSON_stringify v @ rest) ''{''"
proof (cases v)
  case JNull
  then show ?thesis by (simp add: parse_scalar_def starts_with_def)
next
  case (JBool b)
  then show ?thesis by (cases b) (simp_all add: parse_scalar_def starts_with_def)
next
  case (JNum i)
  obtain c cs where cc: "Number_toString i = c # cs" "c = CHR ''-'' \<or> is_digit c"
    by (rule Number_toString_Cons)
  have pn: "parse_number (c # cs @ rest) = Some (JNum i, rest)"
    using assms(1) parse_number_toString [of rest i] cc(1) by (simp add: number_end_iff)
  have "c \<noteq> CHR ''['' \<and> c \<noteq> CHR ''{'' \<and> c \<noteq> CHR 0x22 \<and> c \<noteq> CHR ''t'' \<and> c \<noteq> CHR ''f'' \<and> c \<noteq> CHR ''n''"
    using cc(2) is_digit_not [of c] by auto
  with cc(1) JNum pn show ?thesis
    by (simp add: parse_scalar_def starts_with_def)
next
  case (JStr s)
  then show ?thesis
    by (simp add: parse_scalar_def starts_with_def quote_def parse_chars_quoted)
next
  case (JArr xs)
  with assms(2) show ?thesis by blast
next
  case (JObj ms)
  with assms(3) show ?thesis by blast
qed

lemma separator_comma: "separator close (CHR '','' # JSON_stringify v @ rest) = More (JSON_stringify v @ rest)"
  by (simp add: separator_def skip_ws_def json_ws_def skip_ws_stringify [unfolded skip_ws_def])

lemma separator_close: "close \<noteq> CHR '','' \<Longrightarrow> \<not> json_ws close \<Longrightarrow> separator close (close # rest) = Done rest"
  by (simp add: separator_def skip_ws_def)

lemma parse_elements_join:
  assumes "\<And>x n rest. x \<in> set xs \<Longrightarrow> size x < n \<Longrightarrow> number_end rest
             \<Longrightarrow> parse_value n (JSON_stringify x @ rest) = Some (x, rest)"
    and "xs \<noteq> []" and "size_list size xs < n"
  shows "parse_elements n (join '','' (map JSON_stringify xs) @ CHR '']'' # rest) = Some (xs, rest)"
  using assms
proof (induction xs arbitrary: n)
  case Nil
  then show ?case by simp
next
  case (Cons x xs)
  obtain k where n: "n = Suc k" using Cons.prems(3) by (cases n) auto
  have sx: "size x < k" using Cons.prems(3) n by simp
  show ?case
  proof (cases xs)
    case Nil
    have "parse_value k (JSON_stringify x @ CHR '']'' # rest) = Some (x, CHR '']'' # rest)"
      using sx by (intro Cons.prems(1)) (simp_all add: number_end_def is_digit_def)
    then show ?thesis using Nil n
      by (simp add: separator_close json_ws_def)
  next
    case (Cons y ys)
    have pv: "parse_value k (JSON_stringify x @ CHR '','' # join '','' (map JSON_stringify xs) @ CHR '']'' # rest)
        = Some (x, CHR '','' # join '','' (map JSON_stringify xs) @ CHR '']'' # rest)"
      using sx by (intro Cons.prems(1)) (simp_all add: number_end_def is_digit_def)
    have "size_list size xs < k" using Cons.prems(3) n by simp
    then have pe: "parse_elements k (join '','' (map JSON_stringify xs) @ CHR '']'' # rest) = Some (xs, rest)"
      using Cons.prems(1) Cons by (intro Cons.IH) simp_all
    have sep: "separator (CHR '']'') (CHR '','' # join '','' (map JSON_stringify xs) @ CHR '']'' # rest)
        = More (join '','' (map JSON_stringify xs) @ CHR '']'' # rest)"
      using separator_comma [of "CHR '']''" y "CHR '','' # join '','' (map JSON_stringify ys) @ CHR '']'' # rest"]
        separator_comma [of "CHR '']''" y "CHR '']'' # rest"] Cons
      by (cases ys) simp_all
    show ?thesis using pv pe sep n Cons by simp
  qed
qed

lemma stringify_first: "\<exists>c cs. JSON_stringify v = c # cs \<and> \<not> json_ws c \<and> c \<noteq> CHR '']'' \<and> c \<noteq> CHR ''}''"
proof (cases v)
  case (JNum i)
  obtain c cs where cc: "Number_toString i = c # cs" "c = CHR ''-'' \<or> is_digit c"
    by (rule Number_toString_Cons)
  have "\<not> json_ws c \<and> c \<noteq> CHR '']'' \<and> c \<noteq> CHR ''}''"
  proof (cases "is_digit c")
    case True
    then show ?thesis using is_digit_not [of c] by simp
  next
    case False
    then have "c = CHR ''-''" using cc(2) by simp
    then show ?thesis by (simp add: json_ws_def)
  qed
  then show ?thesis using JNum cc(1) by simp
next
  case (JBool b)
  then show ?thesis by (cases b) (simp_all add: json_ws_def)
qed (simp_all add: json_ws_def quote_def)


lemma skip_ws_colon: "skip_ws (CHR '':'' # s) = CHR '':'' # s"
  by (simp add: skip_ws_def json_ws_def)

lemma member_key_quote:
  "member_key (quote k @ CHR '':'' # JSON_stringify v @ rest) = Some (k, JSON_stringify v @ rest)"
proof -
  have "parse_chars (concat (map escape_char k) @ CHR 0x22 # CHR '':'' # JSON_stringify v @ rest)
      = Some (k, CHR '':'' # JSON_stringify v @ rest)"
    by (rule parse_chars_quoted)
  then show ?thesis
    by (simp add: member_key_def quote_def skip_ws_stringify skip_ws_colon)
qed


lemma separator_comma_quote:
  "separator close (CHR '','' # quote k @ rest) = More (quote k @ rest)"
  by (simp add: separator_def skip_ws_def json_ws_def quote_def)

lemma parse_members_join:
  assumes "\<And>k x n rest. (k, x) \<in> set ms \<Longrightarrow> size x < n \<Longrightarrow> number_end rest
             \<Longrightarrow> parse_value n (JSON_stringify x @ rest) = Some (x, rest)"
    and "ms \<noteq> []" and "size_list (size_prod (\<lambda>k. 0) size) ms < n"
  shows "parse_members n (join '','' (map member_text ms) @ CHR ''}'' # rest) = Some (ms, rest)"
  using assms
proof (induction ms arbitrary: n)
  case Nil
  then show ?case by simp
next
  case (Cons m ms)
  obtain key x where m: "m = (key, x)" by (cases m)
  obtain k where n: "n = Suc k" using Cons.prems(3) by (cases n) auto
  have sx: "size x < k" using Cons.prems(3) n m by simp
  have mem: "(key, x) \<in> set (m # ms)" using m by simp
  show ?case
  proof (cases ms)
    case Nil
    have shape: "join '','' (map member_text (m # ms)) @ CHR ''}'' # rest
        = quote key @ CHR '':'' # JSON_stringify x @ CHR ''}'' # rest"
      using Nil m by simp
    have pv: "parse_value k (JSON_stringify x @ CHR ''}'' # rest) = Some (x, CHR ''}'' # rest)"
      using mem sx by (rule Cons.prems(1)) (simp add: number_end_def is_digit_def)
    have sep: "separator (CHR ''}'') (CHR ''}'' # rest) = Done rest"
      by (rule separator_close) (simp_all add: json_ws_def)
    show ?thesis unfolding shape n
      by (simp add: member_key_quote pv sep Nil m)
  next
    case ms: (Cons m' ms')
    define tail where "tail = join '','' (map member_text ms) @ CHR ''}'' # rest"
    have shape: "join '','' (map member_text (m # ms)) @ CHR ''}'' # rest
        = quote key @ CHR '':'' # JSON_stringify x @ CHR '','' # tail"
      using m by (simp add: ms tail_def)
    have pv: "parse_value k (JSON_stringify x @ CHR '','' # tail) = Some (x, CHR '','' # tail)"
      using mem sx by (rule Cons.prems(1)) (simp add: number_end_def is_digit_def)
    have "size_list (size_prod (\<lambda>k. 0) size) ms < k" using Cons.prems(3) n by simp
    moreover have "ms \<noteq> []" using ms by simp
    moreover have "\<And>k x n rest. (k, x) \<in> set ms \<Longrightarrow> size x < n \<Longrightarrow> number_end rest
             \<Longrightarrow> parse_value n (JSON_stringify x @ rest) = Some (x, rest)"
    proof -
      fix k' x' n' rest'
      assume "(k', x') \<in> set ms" "size x' < n'" "number_end rest'"
      then show "parse_value n' (JSON_stringify x' @ rest') = Some (x', rest')"
        using Cons.prems(1) [of k' x' n' rest'] by simp
    qed
    ultimately have pe: "parse_members k tail = Some (ms, rest)"
      unfolding tail_def by (intro Cons.IH)
    obtain key' x' where m': "m' = (key', x')" by (cases m')
    have "\<exists>t. tail = quote key' @ t"
      unfolding tail_def ms m' by (cases ms') simp_all
    then obtain t where t: "tail = quote key' @ t" by blast
    have sep: "separator (CHR ''}'') (CHR '','' # tail) = More tail"
      unfolding t by (rule separator_comma_quote)
    show ?thesis unfolding shape n
      by (simp add: member_key_quote pv sep pe m)
  qed
qed

lemma parse_value_scalar:
  assumes "\<forall>xs. v \<noteq> JArr xs" and "\<forall>ms. v \<noteq> JObj ms" and "number_end rest"
  shows "parse_value (Suc k) (JSON_stringify v @ rest) = Some (v, rest)"
  using parse_scalar_stringify [OF assms(3) assms(1) assms(2)] by simp

lemma parse_value_stringify:
  "wf_json v \<Longrightarrow> size v < n \<Longrightarrow> number_end rest
    \<Longrightarrow> parse_value n (JSON_stringify v @ rest) = Some (v, rest)"
proof (induction v arbitrary: n rest)
  case (JArr xs)
  obtain k where n: "n = Suc k" using JArr.prems(2) by (cases n) auto
  show ?case
  proof (cases xs)
    case Nil
    then show ?thesis using n
      by (simp add: starts_with_def skip_ws_def json_ws_def)
  next
    case (Cons y ys)
    let ?body = "join '','' (map JSON_stringify xs) @ CHR '']'' # rest"
    obtain c cs where c: "JSON_stringify y = c # cs" "\<not> json_ws c" "c \<noteq> CHR '']''"
      using stringify_first [of y] by blast
    have body: "\<exists>bs. ?body = c # bs" using Cons c(1) by (cases ys) simp_all
    then obtain bs where bs: "?body = c # bs" by blast
    have sk: "skip_ws ?body = ?body" using bs c(2) by (simp add: skip_ws_def)
    have ns: "\<not> starts_with ?body '']''" using bs c(3) by (simp add: starts_with_def)
    have "parse_elements k ?body = Some (xs, rest)"
    proof (rule parse_elements_join)
      fix x n' rest'
      assume "x \<in> set xs" "size x < n'" "number_end rest'"
      then show "parse_value n' (JSON_stringify x @ rest') = Some (x, rest')"
        using JArr.IH [of x n' rest'] JArr.prems(1) by (simp add: list_all_iff)
    next
      show "xs \<noteq> []" using Cons by simp
      show "size_list size xs < k" using JArr.prems(2) n by simp
    qed
    then show ?thesis using n sk ns
      by (simp add: starts_with_def)
  qed
next
  case (JObj ms)
  obtain k where n: "n = Suc k" using JObj.prems(2) by (cases n) auto
  have canon: "js_object ms = ms" using JObj.prems(1) by simp
  show ?case
  proof (cases ms)
    case Nil
    then show ?thesis using n
      by (simp add: starts_with_def skip_ws_def json_ws_def)
  next
    case (Cons m ms')
    let ?body = "join '','' (map member_text ms) @ CHR ''}'' # rest"
    obtain key x where m: "m = (key, x)" by (cases m)
    have body: "\<exists>bs. ?body = CHR 0x22 # bs" using Cons m by (cases ms') (simp_all add: quote_def)
    then obtain bs where bs: "?body = CHR 0x22 # bs" by blast
    have sk: "skip_ws ?body = ?body" using bs by (simp add: skip_ws_def json_ws_def)
    have ns: "\<not> starts_with ?body ''}''" using bs by (simp add: starts_with_def)
    have "parse_members k ?body = Some (ms, rest)"
    proof (rule parse_members_join)
      fix key' x n' rest'
      assume "(key', x) \<in> set ms" "size x < n'" "number_end rest'"
      then show "parse_value n' (JSON_stringify x @ rest') = Some (x, rest')"
        using JObj.IH [of "(key', x)" x n' rest'] JObj.prems(1) by (fastforce simp: list_all_iff)
    next
      show "ms \<noteq> []" using Cons by simp
      show "size_list (size_prod (\<lambda>k. 0) size) ms < k" using JObj.prems(2) n by simp
    qed
    then show ?thesis using n sk ns canon
      by (simp add: starts_with_def)
  qed
next
  case JNull
  then show ?case using parse_value_scalar [of JNull rest] by (cases n) simp_all
next
  case (JBool b)
  then show ?case using parse_value_scalar [of "JBool b" rest] by (cases n) simp_all
next
  case (JNum i)
  then show ?case using parse_value_scalar [of "JNum i" rest] by (cases n) simp_all
next
  case (JStr s)
  then show ?case using parse_value_scalar [of "JStr s" rest] by (cases n) simp_all
qed

lemma size_list_join:
  assumes "\<And>x. x \<in> set xs \<Longrightarrow> g x \<le> length (f x)"
  shows "size_list g xs \<le> length (join '','' (map f xs)) + 1"
  using assms
proof (induction xs)
  case Nil
  then show ?case by simp
next
  case (Cons x xs)
  have gx: "g x \<le> length (f x)" using Cons.prems by simp
  have ih: "size_list g xs \<le> length (join '','' (map f xs)) + 1"
    using Cons.prems by (intro Cons.IH) simp
  show ?case
  proof (cases xs)
    case Nil
    then show ?thesis using gx by simp
  next
    case (Cons y ys)
    then have "join '','' (map f (x # xs)) = f x @ '','' @ join '','' (map f xs)" by simp
    then show ?thesis using gx ih by simp
  qed
qed

lemma size_le_stringify: "size v \<le> length (JSON_stringify v)"
proof (induction v)
  case (JArr xs)
  have "size_list size xs \<le> length (join '','' (map JSON_stringify xs)) + 1"
    using JArr by (intro size_list_join) simp
  then show ?case by simp
next
  case (JObj ms)
  have "size_list (size_prod (\<lambda>k. 0) size) ms \<le> length (join '','' (map member_text ms)) + 1"
  proof (rule size_list_join)
    fix m assume m: "m \<in> set ms"
    obtain k x where kx: "m = (k, x)" by (cases m)
    have "size x \<le> length (JSON_stringify x)"
      using JObj [of m x] m kx by simp
    then show "size_prod (\<lambda>k. 0) size m \<le> length (member_text m)"
      using kx by (simp add: quote_def)
  qed
  then show ?case by simp
qed simp_all

theorem JSON_roundtrip: "wf_json v \<Longrightarrow> JSON_parse (JSON_stringify v) = Some v"
proof -
  assume wf: "wf_json v"
  have "parse_value (Suc (length (JSON_stringify v))) (JSON_stringify v @ []) = Some (v, [])"
    using wf size_le_stringify [of v] by (intro parse_value_stringify) (simp_all add: number_end_def)
  moreover have "skip_ws (JSON_stringify v) = JSON_stringify v"
    using skip_ws_stringify [of v "[]"] by simp
  ultimately show ?thesis
    by (simp add: JSON_parse_def skip_ws_def)
qed






section \<open>Properties of the dictionaries and of the cache operations\<close>

lemma map_of_insert_index: "map_of (insert_index k v d) = (map_of d)(k \<mapsto> v)"
proof (induction d)
  case Nil
  then show ?case by simp
next
  case (Cons p d)
  obtain k' v' where p: "p = (k', v')" by (cases p)
  show ?case
  proof (cases "is_array_index k' \<and> digits_val k' < digits_val k")
    case True
    then have "k' \<noteq> k" by auto
    then show ?thesis using True Cons p by (auto simp: fun_upd_twist)
  next
    case False
    then show ?thesis using p by auto
  qed
qed

lemma map_of_overwrite_at:
  "map_of (map (\<lambda>(k', v'). if k' = k then (k', v) else (k', v')) d) x =
     (if x = k \<and> map_of d k \<noteq> None then Some v else map_of d x)"
  by (induction d) auto

lemma map_of_overwrite:
  "map_of d k \<noteq> None \<Longrightarrow>
     map_of (map (\<lambda>(k', v'). if k' = k then (k', v) else (k', v')) d) = (map_of d)(k \<mapsto> v)"
  by (rule ext) (simp add: map_of_overwrite_at)

lemma map_of_prop_set: "map_of (prop_set d k v) = (map_of d)(k \<mapsto> v)"
proof (cases "map_of d k \<noteq> None")
  case True
  then show ?thesis using map_of_overwrite [of d k v] by (simp add: prop_set_def)
next
  case False
  then show ?thesis by (auto simp: prop_set_def map_of_insert_index map_add_def fun_eq_iff split: option.splits)
qed

lemma map_of_prop_delete: "map_of (prop_delete d k) = (map_of d)(k := None)"
  by (induction d) (auto simp: prop_delete_def)

lemma store_cache_write [simp]: "store (cache_write c) = store c"
  by (simp add: cache_write_def setTimeout_def clearTimeout_def split: option.splits)

lemma entry_prop_set:
  "entry (prop_set s name t) name' key = (if name' = name then map_of t key else entry s name' key)"
  by (simp add: entry_def map_of_prop_set)

lemma entry_prop_delete:
  "entry (prop_delete s name) name' key = (if name' = name then None else entry s name' key)"
  by (simp add: entry_def map_of_prop_delete)

lemma cache_table_entry:
  "entry (store (fst (cache_table c name))) name' key = entry (store c) name' key"
  by (cases "name' = name") (simp_all add: cache_table_def entry_prop_set split: option.splits, simp add: entry_def)

lemma cache_table_snd:
  "map_of (snd (cache_table c name)) key = entry (store c) name key"
  by (simp add: cache_table_def entry_def split: option.splits)

lemma cache_get_value:
  "snd (cache_get c name key) = (case entry (store c) name key of Some v \<Rightarrow> v | None \<Rightarrow> None)"
  using cache_table_snd [of c name key]
  by (simp add: cache_get_def split_beta)

lemma cache_get_store:
  "entry (store (fst (cache_get c name key))) name' key' = entry (store c) name' key'"
  using cache_table_entry [of c name name' key']
  by (simp add: cache_get_def split_beta)

lemma cache_set_entry:
  "entry (store (cache_set c name key v)) name' key' =
     (if name' = name \<and> key' = key then Some v else entry (store c) name' key')"
  using cache_table_entry [of c name name' key'] cache_table_snd [of c name key']
  by (simp add: cache_set_def split_beta entry_prop_set map_of_prop_set)

lemma cache_delete_entry:
  "entry (store (cache_delete c name key)) name' key' =
     (if name' = name \<and> key' = key then None else entry (store c) name' key')"
  using cache_table_entry [of c name name' key'] cache_table_snd [of c name key']
  by (simp add: cache_delete_def split_beta entry_prop_set map_of_prop_delete)

lemma cache_clear_entry:
  "entry (store (cache_clear c name)) name' key' =
     (if name' = name then None else entry (store c) name' key')"
  by (simp add: cache_clear_def entry_prop_delete)

lemma level_put_get:
  assumes "fault db name = None" and "wf_json v"
  shows "\<exists>db'. LevelDBCache_set db name key v = Inr db' \<and> LevelDBCache_get db' name key = Inr (Some v)"
  using assms
  by (simp add: LevelDBCache_set_def LevelDBCache_get_def sublevel_put_def sublevel_get_def JSON_roundtrip)

lemma level_del_get:
  assumes "fault db name = None"
  shows "\<exists>db'. LevelDBCache_delete db name key = Inr db' \<and> LevelDBCache_get db' name key = Inr None"
  using assms
  by (simp add: LevelDBCache_delete_def LevelDBCache_get_def sublevel_del_def sublevel_get_def)

lemma level_get_cases:
  "LevelDBCache_get db name key =
     (case sublevel_get db name key of
        Inr v \<Rightarrow> Inr (Some v)
      | Inl e \<Rightarrow> if code e = ''LEVEL_NOT_FOUND'' then Inr None else Inl e)"
  by (simp add: LevelDBCache_get_def)

lemma level_clear_frame:
  assumes "A \<noteq> B" and "LevelDBCache_clear db A = Inr db'"
  shows "LevelDBCache_get db' B K = LevelDBCache_get db B K"
  using assms
  by (auto simp: LevelDBCache_clear_def sublevel_clear_def LevelDBCache_get_def sublevel_get_def
      split: option.splits)

lemma level_two_tables:
  assumes "A \<noteq> B" and "fault db A = None" and "fault db B = None" and "wf_json v1" and "wf_json v2"
  shows "\<exists>db1 db2. LevelDBCache_set db A K v1 = Inr db1 \<and> LevelDBCache_set db1 B K v2 = Inr db2
           \<and> LevelDBCache_get db2 A K = Inr (Some v1) \<and> LevelDBCache_get db2 B K = Inr (Some v2)"
  using assms
  by (simp add: LevelDBCache_set_def sublevel_put_def LevelDBCache_get_def sublevel_get_def JSON_roundtrip)

lemma cache_write_fields:
  "flushed (cache_write c) = flushed c"
  "clock (cache_write c) = clock c" "disk (cache_write c) = disk c"
  "disk_fails (cache_write c) = disk_fails c" "warnings (cache_write c) = warnings c"
  "debounce (cache_write c) = Some (next_timer c)"
  by (simp_all add: cache_write_def setTimeout_def clearTimeout_def split: option.splits)

lemma cache_write_timers:
  "pending_ok c \<Longrightarrow> timers (cache_write c) = [(next_timer c, clock c + 1000)]"
  by (auto simp: cache_write_def setTimeout_def clearTimeout_def pending_ok_def filter_empty_conv
      split: option.splits)

lemma cache_table_fields:
  "debounce (fst (cache_table c name)) = debounce c" "timers (fst (cache_table c name)) = timers c"
  "next_timer (fst (cache_table c name)) = next_timer c" "clock (fst (cache_table c name)) = clock c"
  "flushed (fst (cache_table c name)) = flushed c" "disk (fst (cache_table c name)) = disk c"
  "disk_fails (fst (cache_table c name)) = disk_fails c" "warnings (fst (cache_table c name)) = warnings c"
  by (simp_all add: cache_table_def split: option.splits)

lemma pending_ok_store [simp]: "pending_ok (c\<lparr>store := s\<rparr>) = pending_ok c"
  by (simp add: pending_ok_def split: option.splits)

lemma pending_ok_clock [simp]: "pending_ok (c\<lparr>clock := t\<rparr>) = pending_ok c"
  by (simp add: pending_ok_def split: option.splits)

lemma pending_ok_table: "pending_ok (fst (cache_table c name)) = pending_ok c"
  by (simp add: pending_ok_def cache_table_fields split: option.splits)

lemma mutate_fields:
  "flushed (mutate m c) = flushed c" "clock (mutate m c) = clock c" "disk (mutate m c) = disk c"
  "disk_fails (mutate m c) = disk_fails c" "debounce (mutate m c) = Some (next_timer c)"
  by (cases m; simp add: cache_clear_def cache_set_def cache_delete_def split_beta
        cache_write_fields cache_table_fields)+

lemma mutate_timers:
  "pending_ok c \<Longrightarrow> timers (mutate m c) = [(next_timer c, clock c + 1000)]"
  by (cases m)
    (simp_all add: cache_clear_def cache_set_def cache_delete_def split_beta
        cache_write_timers cache_write_fields cache_table_fields pending_ok_table)

lemma pending_ok_mutate: "pending_ok c \<Longrightarrow> pending_ok (mutate m c)"
  by (simp add: pending_ok_def [of "mutate m c"] mutate_fields mutate_timers)

lemma advance_quiet:
  "quiet_until t c \<Longrightarrow> advance ser t c = c\<lparr>clock := max (clock c) t\<rparr>"
proof -
  assume "quiet_until t c"
  then have "filter (\<lambda>(h, due). due \<le> t) (timers c) = []"
    by (auto simp: quiet_until_def list_all_iff filter_empty_conv)
  then show ?thesis by (simp add: advance_def)
qed

lemma advance_fire:
  "timers c = [(h, due)] \<Longrightarrow> due \<le> t
    \<Longrightarrow> advance ser t c = (cache_flush ser (clearTimeout h c))\<lparr>clock := max (clock c) t\<rparr>"
  by (simp add: advance_def expire_def)

lemma cache_flush_fields:
  "flushed (cache_flush ser c) = flushed c @ [ser (store c)]" "debounce (cache_flush ser c) = None"
  "timers (cache_flush ser c) = timers c" "store (cache_flush ser c) = store c"
  "clock (cache_flush ser c) = clock c" "next_timer (cache_flush ser c) = next_timer c"
  "disk (cache_flush ser c) = (if disk_fails c then disk c else Some (ser (store c)))"
  by (simp_all add: cache_flush_def Let_def)

lemma clearTimeout_fields:
  "flushed (clearTimeout h c) = flushed c" "debounce (clearTimeout h c) = debounce c"
  "store (clearTimeout h c) = store c" "clock (clearTimeout h c) = clock c"
  "disk_fails (clearTimeout h c) = disk_fails c" "disk (clearTimeout h c) = disk c"
  "timers (clearTimeout h c) = filter (\<lambda>(h', due). h' \<noteq> h) (timers c)"
  by (simp_all add: clearTimeout_def)

text \<open>The state in the middle of a burst: one timer, due 1000 ms after the last call.\<close>

lemma run_burst:
  assumes "pending_ok c" and "clock c \<le> t" and "quiet_until t c" and "burst t rest"
  shows "flushed (run_calls ser ((t, m) # rest) c) = flushed c
       \<and> clock (run_calls ser ((t, m) # rest) c) = fst (last ((t, m) # rest))
       \<and> pending_ok (run_calls ser ((t, m) # rest) c)
       \<and> (\<exists>h. timers (run_calls ser ((t, m) # rest) c) = [(h, fst (last ((t, m) # rest)) + 1000)])"
  using assms
proof (induction rest arbitrary: c t m)
  case Nil
  have adv: "advance ser t c = c\<lparr>clock := max (clock c) t\<rparr>"
    using Nil.prems(3) by (rule advance_quiet)
  have ok: "pending_ok (c\<lparr>clock := max (clock c) t\<rparr>)"
    using Nil.prems(1) by simp
  show ?case
    using Nil.prems(2) ok
    by (simp add: adv mutate_fields mutate_timers pending_ok_mutate max_def)
next
  case (Cons p rest)
  obtain t' m' where p: "p = (t', m')" by (cases p)
  define c1 where "c1 = mutate m (advance ser t c)"
  have adv: "advance ser t c = c\<lparr>clock := max (clock c) t\<rparr>"
    using Cons.prems(3) by (rule advance_quiet)
  have ok0: "pending_ok (c\<lparr>clock := max (clock c) t\<rparr>)"
    using Cons.prems(1) by simp
  have ok1: "pending_ok c1"
    unfolding c1_def adv using ok0 by (rule pending_ok_mutate)
  have clk1: "clock c1 = t"
    unfolding c1_def adv using Cons.prems(2) by (simp add: mutate_fields max_def)
  have tm1: "timers c1 = [(next_timer c, t + 1000)]"
    unfolding c1_def adv using ok0 Cons.prems(2) by (simp add: mutate_timers max_def)
  have fl1: "flushed c1 = flushed c"
    unfolding c1_def adv by (simp add: mutate_fields)
  have b: "t \<le> t'" "t' < t + 1000" "burst t' rest"
    using Cons.prems(4) p by simp_all
  have q1: "quiet_until t' c1"
    using tm1 b(2) by (simp add: quiet_until_def)
  have ih: "flushed (run_calls ser ((t', m') # rest) c1) = flushed c1
       \<and> clock (run_calls ser ((t', m') # rest) c1) = fst (last ((t', m') # rest))
       \<and> pending_ok (run_calls ser ((t', m') # rest) c1)
       \<and> (\<exists>h. timers (run_calls ser ((t', m') # rest) c1) = [(h, fst (last ((t', m') # rest)) + 1000)])"
    using ok1 clk1 b(1) q1 b(3) by (intro Cons.IH) simp_all
  have step: "run_calls ser ((t, m) # p # rest) c = run_calls ser ((t', m') # rest) c1"
    by (simp add: c1_def p)
  show ?case
    unfolding step using ih fl1 p by simp
qed


section \<open>Properties of \<open>forEach\<close>\<close>

lemma launch_returns:
  "map (\<lambda>(k, v). callback v k) entries = map Returns tasks
    \<Longrightarrow> launch callback entries tasks0 calls0
          = (Inr (tasks0 @ tasks), calls0 @ map (\<lambda>(k, v). (v, k)) entries)"
proof (induction entries arbitrary: tasks tasks0 calls0)
  case Nil
  then show ?case by simp
next
  case (Cons p entries)
  obtain k v where p: "p = (k, v)" by (cases p)
  obtain task rest where tasks: "tasks = task # rest"
    using Cons.prems by (cases tasks) auto
  have r: "callback v k = Returns task" "map (\<lambda>(k, v). callback v k) entries = map Returns rest"
    using Cons.prems p tasks by simp_all
  show ?case
    using Cons.IH [OF r(2), of "tasks0 @ [task]" "calls0 @ [(v, k)]"] r(1) p tasks by simp
qed

lemma launch_throws:
  assumes "map (\<lambda>(k, v). callback v k) before = map Returns tasks" and "callback v k = Throws e"
  shows "launch callback (before @ (k, v) # after) tasks0 calls0
          = (Inl e, calls0 @ map (\<lambda>(k, v). (v, k)) before @ [(v, k)])"
  using assms(1)
proof (induction before arbitrary: tasks tasks0 calls0)
  case Nil
  then show ?case using assms(2) by simp
next
  case (Cons p before)
  obtain k' v' where p: "p = (k', v')" by (cases p)
  obtain task rest where tasks: "tasks = task # rest"
    using Cons.prems by (cases tasks) auto
  have r: "callback v' k' = Returns task" "map (\<lambda>(k, v). callback v k) before = map Returns rest"
    using Cons.prems p tasks by simp_all
  show ?case
    using Cons.IH [OF r(2), of "tasks0 @ [task]" "calls0 @ [(v', k')]"] r(1) p by simp
qed

lemma rejections_mem: "e \<in> set (rejections tasks) \<longleftrightarrow> Rejected e \<in> set tasks"
  by (induction tasks) (auto simp: rejections_def List.map_filter_simps split: settlement.splits)

section \<open>Properties of the record-log loader\<close>










section \<open>Properties of \<open>INI.parse\<close>\<close>











section \<open>The two codecs\<close>






lemma trim_Nil [simp]: "trim [] = []"
  by (simp add: trim_def)







































section \<open>The claims\<close>

text \<open>
  C1. In every backend, \<open>set(T, K, V)\<close> followed by \<open>get(T, K)\<close> returns \<open>V\<close>, and
  \<open>delete(T, K)\<close> followed by \<open>get(T, K)\<close> returns \<open>undefined\<close>. The first two conjuncts
  are \<open>TxtDBCache\<close> and \<open>IniDBCache\<close>, whose methods are the same, for any value, also
  \<open>undefined\<close>. The last two are \<open>LevelDBCache\<close>, for a value of the JSON encoding and an
  engine that serves the table.
\<close>

theorem get_after_set_and_delete:
  assumes "fault db T = None" and "wf_json V"
  shows "snd (cache_get (cache_set c T K W) T K) = W
       \<and> snd (cache_get (cache_delete c T K) T K) = None
       \<and> (\<exists>db'. LevelDBCache_set db T K V = Inr db' \<and> LevelDBCache_get db' T K = Inr (Some V))
       \<and> (\<exists>db'. LevelDBCache_delete db T K = Inr db' \<and> LevelDBCache_get db' T K = Inr None)"
  using level_put_get [OF assms, of K] level_del_get [OF assms(1), of K]
  by (simp add: cache_get_value cache_set_entry cache_delete_entry)

theorem get_after_set_and_delete_witness:
  "fault new_level ''default'' = None \<and> wf_json (JArr [JNum 42, JStr ''x''])
   \<and> snd (cache_get (cache_set (new_cache None) ''default'' ''k'' (Some (JNum 42))) ''default'' ''k'')
       = Some (JNum 42)
   \<and> snd (cache_get (cache_delete (new_cache None) ''default'' ''k'') ''default'' ''k'') = None
   \<and> (\<exists>db'. LevelDBCache_set new_level ''default'' ''k'' (JArr [JNum 42, JStr ''x'']) = Inr db'
          \<and> LevelDBCache_get db' ''default'' ''k'' = Inr (Some (JArr [JNum 42, JStr ''x''])))
   \<and> (\<exists>db'. LevelDBCache_delete new_level ''default'' ''k'' = Inr db'
          \<and> LevelDBCache_get db' ''default'' ''k'' = Inr None)"
proof -
  have h1: "fault new_level ''default'' = None" by (simp add: new_level_def)
  have h2: "wf_json (JArr [JNum 42, JStr ''x''])" by simp
  show ?thesis
    using h1 h2 get_after_set_and_delete [OF h1 h2, of "new_cache None" "''k''" "Some (JNum 42)"]
    by simp
qed

text \<open>
  C2. A \<open>get\<close> of a table and key with no stored entry returns \<open>undefined\<close>. In the
  file-backed caches \<open>get\<close> has no way to fail: \<open>cache_get\<close> returns a value on every
  input. In \<open>LevelDBCache\<close> the error with the code \<open>LEVEL_NOT_FOUND\<close> becomes
  \<open>undefined\<close>, every other error of the engine is thrown on, and an engine that serves
  the table and holds no entry answers \<open>undefined\<close>.
\<close>

theorem get_missing_is_undefined:
  "(entry (store c) T K = None \<longrightarrow> snd (cache_get c T K) = None)
   \<and> (sublevel_get db T K = Inl e \<and> code e = ''LEVEL_NOT_FOUND'' \<longrightarrow> LevelDBCache_get db T K = Inr None)
   \<and> (sublevel_get db T K = Inl e \<and> code e \<noteq> ''LEVEL_NOT_FOUND'' \<longrightarrow> LevelDBCache_get db T K = Inl e)
   \<and> (fault db T = None \<and> sublevels db T K = None \<longrightarrow> LevelDBCache_get db T K = Inr None)"
  by (simp add: cache_get_value level_get_cases sublevel_get_def)

theorem get_missing_is_undefined_witness:
  "entry (store (new_cache None)) ''anytable'' ''missing'' = None
   \<and> snd (cache_get (new_cache None) ''anytable'' ''missing'') = None
   \<and> sublevel_get new_level ''anytable'' ''missing'' = Inl \<lparr>code = ''LEVEL_NOT_FOUND''\<rparr>
   \<and> LevelDBCache_get new_level ''anytable'' ''missing'' = Inr None
   \<and> sublevel_get (new_level\<lparr>fault := (\<lambda>name. Some \<lparr>code = ''LEVEL_DATABASE_NOT_OPEN''\<rparr>)\<rparr>) ''anytable'' ''missing''
        = Inl \<lparr>code = ''LEVEL_DATABASE_NOT_OPEN''\<rparr>
   \<and> LevelDBCache_get (new_level\<lparr>fault := (\<lambda>name. Some \<lparr>code = ''LEVEL_DATABASE_NOT_OPEN''\<rparr>)\<rparr>) ''anytable'' ''missing''
        = Inl \<lparr>code = ''LEVEL_DATABASE_NOT_OPEN''\<rparr>
   \<and> fault new_level ''anytable'' = None \<and> sublevels new_level ''anytable'' ''missing'' = None"
  using get_missing_is_undefined [of "new_cache None" "''anytable''" "''missing''" new_level
          "\<lparr>code = ''LEVEL_NOT_FOUND''\<rparr>"]
        get_missing_is_undefined [of "new_cache None" "''anytable''" "''missing''"
          "new_level\<lparr>fault := (\<lambda>name. Some \<lparr>code = ''LEVEL_DATABASE_NOT_OPEN''\<rparr>)\<rparr>"
          "\<lparr>code = ''LEVEL_DATABASE_NOT_OPEN''\<rparr>"]
  by (simp add: new_cache_def new_level_def entry_def sublevel_get_def)

text \<open>
  C3. In the file-backed caches every call of \<open>clear\<close>, \<open>set\<close> or \<open>delete\<close> cancels the
  scheduled flush and schedules a new one 1000 ms later. So for calls that follow one
  another by less than 1000 ms, starting when no flush is due: no flush happens during
  the calls nor before 1000 ms have passed since the last one, and then exactly one
  flush happens, which hands the serialized state after the last call to the file
  system, and no timer is left.
\<close>

theorem debounce_coalesces:
  assumes "pending_ok c" and "clock c \<le> t" and "quiet_until t c" and "burst t rest"
  shows "(\<forall>c0 m0. pending_ok c0 \<longrightarrow>
            timers (mutate m0 c0) = [(next_timer c0, clock c0 + 1000)]
          \<and> debounce (mutate m0 c0) = Some (next_timer c0))
       \<and> flushed (run_calls ser ((t, m) # rest) c) = flushed c
       \<and> (\<forall>T. T < fst (last ((t, m) # rest)) + 1000 \<longrightarrow>
             flushed (advance ser T (run_calls ser ((t, m) # rest) c)) = flushed c)
       \<and> (\<forall>T. fst (last ((t, m) # rest)) + 1000 \<le> T \<longrightarrow>
             flushed (advance ser T (run_calls ser ((t, m) # rest) c))
               = flushed c @ [ser (store (run_calls ser ((t, m) # rest) c))]
           \<and> timers (advance ser T (run_calls ser ((t, m) # rest) c)) = []
           \<and> debounce (advance ser T (run_calls ser ((t, m) # rest) c)) = None)"
proof -
  define c' where "c' = run_calls ser ((t, m) # rest) c"
  define tN where "tN = fst (last ((t, m) # rest))"
  have rb: "flushed c' = flushed c" "pending_ok c'"
    and "\<exists>h. timers c' = [(h, tN + 1000)]"
    using run_burst [OF assms, of ser m] by (simp_all add: c'_def tN_def)
  then obtain h where h: "timers c' = [(h, tN + 1000)]" by blast
  have early: "flushed (advance ser T c') = flushed c" if "T < tN + 1000" for T
  proof -
    have "quiet_until T c'" using h that by (simp add: quiet_until_def)
    then show ?thesis using rb(1) by (simp add: advance_quiet)
  qed
  have late: "flushed (advance ser T c') = flushed c @ [ser (store c')]
      \<and> timers (advance ser T c') = [] \<and> debounce (advance ser T c') = None"
    if "tN + 1000 \<le> T" for T
    using advance_fire [OF h that, of ser] rb(1) h
    by (simp add: cache_flush_fields clearTimeout_fields)
  show ?thesis
    unfolding c'_def [symmetric] tN_def [symmetric]
    using early late rb(1)
    by (simp add: mutate_timers mutate_fields)
qed

theorem debounce_coalesces_witness:
  "pending_ok (new_cache None) \<and> clock (new_cache None) \<le> 0 \<and> quiet_until 0 (new_cache None)
   \<and> burst 0 [(400, SetCall ''default'' ''k'' (Some (JNum 2))), (900, SetCall ''default'' ''k'' (Some (JNum 3)))]
   \<and> timers (mutate (SetCall ''default'' ''k'' (Some (JNum 1))) (new_cache None)) = [(0, 1000)]
   \<and> flushed (run_calls txtContent
        [(0, SetCall ''default'' ''k'' (Some (JNum 1))), (400, SetCall ''default'' ''k'' (Some (JNum 2))),
         (900, SetCall ''default'' ''k'' (Some (JNum 3)))] (new_cache None)) = []
   \<and> flushed (advance txtContent 1899 (run_calls txtContent
        [(0, SetCall ''default'' ''k'' (Some (JNum 1))), (400, SetCall ''default'' ''k'' (Some (JNum 2))),
         (900, SetCall ''default'' ''k'' (Some (JNum 3)))] (new_cache None))) = []
   \<and> flushed (advance txtContent 1900 (run_calls txtContent
        [(0, SetCall ''default'' ''k'' (Some (JNum 1))), (400, SetCall ''default'' ''k'' (Some (JNum 2))),
         (900, SetCall ''default'' ''k'' (Some (JNum 3)))] (new_cache None)))
       = [''[\"default\",\"k\",3]'' @ [CHR 0x0A]]
   \<and> timers (advance txtContent 1900 (run_calls txtContent
        [(0, SetCall ''default'' ''k'' (Some (JNum 1))), (400, SetCall ''default'' ''k'' (Some (JNum 2))),
         (900, SetCall ''default'' ''k'' (Some (JNum 3)))] (new_cache None))) = []"
proof -
  define R where "R = run_calls txtContent
        [(0, SetCall ''default'' ''k'' (Some (JNum 1))), (400, SetCall ''default'' ''k'' (Some (JNum 2))),
         (900, SetCall ''default'' ''k'' (Some (JNum 3)))] (new_cache None)"
  have h1: "pending_ok (new_cache None)" by (simp add: pending_ok_def new_cache_def)
  have h2: "clock (new_cache None) \<le> 0" by (simp add: new_cache_def)
  have h3: "quiet_until 0 (new_cache None)" by (simp add: quiet_until_def new_cache_def)
  have h4: "burst 0 [(400, SetCall ''default'' ''k'' (Some (JNum 2))), (900, SetCall ''default'' ''k'' (Some (JNum 3)))]"
    by simp
  note inst = debounce_coalesces [OF h1 h2 h3 h4, of txtContent "SetCall ''default'' ''k'' (Some (JNum 1))",
      folded R_def]
  have last_time: "fst (last [(0::nat, SetCall ''default'' ''k'' (Some (JNum 1))),
      (400, SetCall ''default'' ''k'' (Some (JNum 2))), (900, SetCall ''default'' ''k'' (Some (JNum 3)))]) = 900"
    by simp
  have f0: "flushed (new_cache None) = []" "next_timer (new_cache None) = 0" "clock (new_cache None) = 0"
    by (simp_all add: new_cache_def)
  have c1: "timers (mutate (SetCall ''default'' ''k'' (Some (JNum 1))) (new_cache None)) = [(0, 1000)]"
    using inst [THEN conjunct1, rule_format, of "new_cache None" "SetCall ''default'' ''k'' (Some (JNum 1))"] h1
    by (simp add: f0)
  have c2: "flushed R = []"
    using inst [THEN conjunct2, THEN conjunct1] by (simp add: f0)
  have c3: "flushed (advance txtContent 1899 R) = []"
    using inst [THEN conjunct2, THEN conjunct2, THEN conjunct1, rule_format, of 1899]
    by (simp add: f0 last_time)
  have snapshot: "txtContent (store R) = ''[\"default\",\"k\",3]'' @ [CHR 0x0A]"
    unfolding R_def by code_simp
  have c4: "flushed (advance txtContent 1900 R) = [''[\"default\",\"k\",3]'' @ [CHR 0x0A]]
      \<and> timers (advance txtContent 1900 R) = []"
    using inst [THEN conjunct2, THEN conjunct2, THEN conjunct2, rule_format, of 1900]
    by (simp add: f0 last_time snapshot)
  show ?thesis
    unfolding R_def [symmetric]
    using h1 h2 h3 h4 c1 c2 c3 c4 by blast
qed

text \<open>
  C4. The \<open>dispose\<close> hook of a file-backed cache: when a flush is pending its timer is
  cleared and the flush runs at once, so the state is handed to the file system (and is
  on the disk unless the write fails) and no timer is left to flush again; this holds
  for a mutation that is still inside its 1000 ms. When no flush is pending the hook
  does nothing.
\<close>

theorem dispose_flushes_pending:
  "(debounce c = Some h \<longrightarrow>
       flushed (cache_dispose ser c) = flushed c @ [ser (store c)]
     \<and> debounce (cache_dispose ser c) = None
     \<and> h \<notin> fst ` set (timers (cache_dispose ser c))
     \<and> (pending_ok c \<longrightarrow> timers (cache_dispose ser c) = [])
     \<and> (\<not> disk_fails c \<longrightarrow> disk (cache_dispose ser c) = Some (ser (store c))))
   \<and> (debounce c = None \<longrightarrow> cache_dispose ser c = c)
   \<and> (pending_ok c \<and> T < clock c + 1000 \<longrightarrow>
         flushed (cache_dispose ser (advance ser T (mutate m c))) = flushed c @ [ser (store (mutate m c))]
       \<and> timers (cache_dispose ser (advance ser T (mutate m c))) = [])"
proof -
  have window: "flushed (cache_dispose ser (advance ser T (mutate m c))) = flushed c @ [ser (store (mutate m c))]
       \<and> timers (cache_dispose ser (advance ser T (mutate m c))) = []"
    if ok: "pending_ok c" and T: "T < clock c + 1000"
  proof -
    have tm: "timers (mutate m c) = [(next_timer c, clock c + 1000)]"
      using ok by (rule mutate_timers)
    then have "quiet_until T (mutate m c)" using T by (simp add: quiet_until_def)
    then have adv: "advance ser T (mutate m c) = (mutate m c)\<lparr>clock := max (clock (mutate m c)) T\<rparr>"
      by (rule advance_quiet)
    show ?thesis
      unfolding adv
      by (simp add: cache_dispose_def mutate_fields tm cache_flush_fields clearTimeout_fields)
  qed
  have pend: "flushed (cache_dispose ser c) = flushed c @ [ser (store c)]
     \<and> debounce (cache_dispose ser c) = None
     \<and> h \<notin> fst ` set (timers (cache_dispose ser c))
     \<and> (pending_ok c \<longrightarrow> timers (cache_dispose ser c) = [])
     \<and> (\<not> disk_fails c \<longrightarrow> disk (cache_dispose ser c) = Some (ser (store c)))"
    if "debounce c = Some h"
    using that
    by (auto simp: cache_dispose_def cache_flush_fields clearTimeout_fields pending_ok_def
        filter_empty_conv)
  show ?thesis
    using window pend by (simp add: cache_dispose_def)
qed

theorem dispose_flushes_pending_witness:
  "debounce (cache_set (new_cache None) ''default'' ''k'' (Some (JNum 42))) = Some 0
   \<and> pending_ok (cache_set (new_cache None) ''default'' ''k'' (Some (JNum 42)))
   \<and> \<not> disk_fails (cache_set (new_cache None) ''default'' ''k'' (Some (JNum 42)))
   \<and> flushed (cache_dispose INI_stringify (cache_set (new_cache None) ''default'' ''k'' (Some (JNum 42))))
       = [''[default]'' @ [CHR 0x0A] @ ''k = 42'' @ [CHR 0x0A, CHR 0x0A]]
   \<and> disk (cache_dispose INI_stringify (cache_set (new_cache None) ''default'' ''k'' (Some (JNum 42))))
       = Some (''[default]'' @ [CHR 0x0A] @ ''k = 42'' @ [CHR 0x0A, CHR 0x0A])
   \<and> timers (cache_dispose INI_stringify (cache_set (new_cache None) ''default'' ''k'' (Some (JNum 42)))) = []
   \<and> debounce (cache_dispose INI_stringify (cache_set (new_cache None) ''default'' ''k'' (Some (JNum 42)))) = None
   \<and> debounce (new_cache None) = None
   \<and> cache_dispose INI_stringify (new_cache None) = new_cache None
   \<and> pending_ok (new_cache None) \<and> 500 < clock (new_cache None) + 1000
   \<and> flushed (cache_dispose INI_stringify
        (advance INI_stringify 500 (mutate (SetCall ''default'' ''k'' (Some (JNum 42))) (new_cache None))))
       = [''[default]'' @ [CHR 0x0A] @ ''k = 42'' @ [CHR 0x0A, CHR 0x0A]]"
proof -
  define C where "C = cache_set (new_cache None) ''default'' ''k'' (Some (JNum 42))"
  have ok0: "pending_ok (new_cache None)" by (simp add: pending_ok_def new_cache_def)
  have f0: "flushed (new_cache None) = []" "clock (new_cache None) = 0" "debounce (new_cache None) = None"
    by (simp_all add: new_cache_def)
  have C: "C = mutate (SetCall ''default'' ''k'' (Some (JNum 42))) (new_cache None)"
    by (simp add: C_def)
  have d: "debounce C = Some 0" unfolding C by (simp add: mutate_fields new_cache_def del: mutate.simps)
  have ok: "pending_ok C" unfolding C using ok0 by (rule pending_ok_mutate)
  have nf: "\<not> disk_fails C" unfolding C by (simp add: mutate_fields new_cache_def del: mutate.simps)
  have fl: "flushed C = []" unfolding C by (simp add: mutate_fields f0 del: mutate.simps)
  have snapshot: "INI_stringify (store C) = ''[default]'' @ [CHR 0x0A] @ ''k = 42'' @ [CHR 0x0A, CHR 0x0A]"
    unfolding C_def by code_simp
  note t1 = dispose_flushes_pending [of C 0 INI_stringify 0 "SetCall ''default'' ''k'' (Some (JNum 42))"]
  note t2 = dispose_flushes_pending [of "new_cache None" 0 INI_stringify 500
      "SetCall ''default'' ''k'' (Some (JNum 42))", folded C]
  have a: "flushed (cache_dispose INI_stringify C) = [''[default]'' @ [CHR 0x0A] @ ''k = 42'' @ [CHR 0x0A, CHR 0x0A]]
     \<and> disk (cache_dispose INI_stringify C) = Some (''[default]'' @ [CHR 0x0A] @ ''k = 42'' @ [CHR 0x0A, CHR 0x0A])
     \<and> timers (cache_dispose INI_stringify C) = []
     \<and> debounce (cache_dispose INI_stringify C) = None"
    using t1 [THEN conjunct1] d ok nf by (simp add: fl snapshot)
  have b: "cache_dispose INI_stringify (new_cache None) = new_cache None"
    using t2 [THEN conjunct2, THEN conjunct1] f0(3) by simp
  have c: "flushed (cache_dispose INI_stringify (advance INI_stringify 500 C))
      = [''[default]'' @ [CHR 0x0A] @ ''k = 42'' @ [CHR 0x0A, CHR 0x0A]]"
    using t2 [THEN conjunct2, THEN conjunct2] ok0 by (simp add: f0 snapshot)
  have w: "500 < clock (new_cache None) + 1000" by (simp add: f0)
  show ?thesis
    unfolding C [symmetric] C_def [symmetric]
    using d ok nf a b c ok0 w f0(3) by blast
qed

text \<open>
  C6. Table isolation: for distinct tables \<open>A\<close> and \<open>B\<close>, \<open>clear(A)\<close> leaves every entry
  of \<open>B\<close> as it was, in the file-backed caches and in \<open>LevelDBCache\<close>; and in
  \<open>LevelDBCache\<close>, after \<open>set(A, K, v1)\<close> and \<open>set(B, K, v2)\<close> each value is read back
  under its own table.
\<close>

theorem table_isolation:
  "(A \<noteq> B \<longrightarrow> entry (store (cache_clear c A)) B K = entry (store c) B K
               \<and> snd (cache_get (cache_clear c A) B K) = snd (cache_get c B K))
   \<and> (A \<noteq> B \<and> LevelDBCache_clear db A = Inr db' \<longrightarrow> LevelDBCache_get db' B K = LevelDBCache_get db B K)
   \<and> (A \<noteq> B \<and> fault db A = None \<and> fault db B = None \<and> wf_json v1 \<and> wf_json v2 \<longrightarrow>
        (\<exists>db1 db2. LevelDBCache_set db A K v1 = Inr db1 \<and> LevelDBCache_set db1 B K v2 = Inr db2
           \<and> LevelDBCache_get db2 A K = Inr (Some v1) \<and> LevelDBCache_get db2 B K = Inr (Some v2)))"
  using level_clear_frame [of A B db db' K] level_two_tables [of A B db v1 v2 K]
  by (simp add: cache_clear_entry cache_get_value)

theorem table_isolation_witness:
  "''a'' \<noteq> ''b''
   \<and> entry (store (cache_clear (cache_set (new_cache None) ''b'' ''k'' (Some (JNum 1))) ''a'')) ''b'' ''k''
       = entry (store (cache_set (new_cache None) ''b'' ''k'' (Some (JNum 1)))) ''b'' ''k''
   \<and> snd (cache_get (cache_clear (cache_set (new_cache None) ''b'' ''k'' (Some (JNum 1))) ''a'') ''b'' ''k'')
       = Some (JNum 1)
   \<and> LevelDBCache_clear new_level ''a'' = Inr (new_level\<lparr>sublevels := (sublevels new_level)(''a'' := Map.empty)\<rparr>)
   \<and> LevelDBCache_get (new_level\<lparr>sublevels := (sublevels new_level)(''a'' := Map.empty)\<rparr>) ''b'' ''k''
       = LevelDBCache_get new_level ''b'' ''k''
   \<and> fault new_level ''a'' = None \<and> fault new_level ''b'' = None \<and> wf_json (JNum 1) \<and> wf_json (JNum 2)
   \<and> (\<exists>db1 db2. LevelDBCache_set new_level ''a'' ''k'' (JNum 1) = Inr db1
          \<and> LevelDBCache_set db1 ''b'' ''k'' (JNum 2) = Inr db2
          \<and> LevelDBCache_get db2 ''a'' ''k'' = Inr (Some (JNum 1))
          \<and> LevelDBCache_get db2 ''b'' ''k'' = Inr (Some (JNum 2)))"
proof -
  have ne: "''a'' \<noteq> ''b''" by simp
  have cl: "LevelDBCache_clear new_level ''a''
      = Inr (new_level\<lparr>sublevels := (sublevels new_level)(''a'' := Map.empty)\<rparr>)"
    by (simp add: LevelDBCache_clear_def sublevel_clear_def new_level_def)
  have hs: "fault new_level ''a'' = None" "fault new_level ''b'' = None" "wf_json (JNum 1)" "wf_json (JNum 2)"
    by (simp_all add: new_level_def)
  have v: "snd (cache_get (cache_set (new_cache None) ''b'' ''k'' (Some (JNum 1))) ''b'' ''k'') = Some (JNum 1)"
    by (simp add: cache_get_value cache_set_entry)
  show ?thesis
    using ne cl hs v
      table_isolation [of "''a''" "''b''" "cache_set (new_cache None) ''b'' ''k'' (Some (JNum 1))" "''k''"
        new_level "new_level\<lparr>sublevels := (sublevels new_level)(''a'' := Map.empty)\<rparr>" "JNum 1" "JNum 2"]
    by simp
qed



text \<open>
  C9, as the code has it. \<open>forEach\<close> calls \<open>callback(value, key)\<close> for the entries in
  their order and waits for none of the calls before the next. When no call throws,
  every entry gets exactly one call, whatever becomes of the promises (also when some
  never settle); the promise of \<open>forEach\<close> is that of \<open>Promise.all\<close>: rejected as soon as
  one invocation is rejected, whether or not the others settle, fulfilled when all are.
  A call that throws ends the traversal there: \<open>forEach\<close> is rejected with that error
  and the entries behind it get no call. Nothing in \<open>forEach\<close> cancels an invocation.
\<close>

theorem forEach_calls:
  "(map (\<lambda>(k, v). callback v k) entries = map Returns tasks \<longrightarrow>
       fst (forEach entries callback) = map (\<lambda>(k, v). (v, k)) entries
     \<and> snd (forEach entries callback) = Promise_all tasks
     \<and> (Rejected e \<in> set tasks \<longrightarrow>
           snd (forEach entries callback) = Rejects (rejections tasks) \<and> e \<in> set (rejections tasks))
     \<and> (set tasks \<subseteq> {Fulfilled} \<longrightarrow> snd (forEach entries callback) = Fulfils))
   \<and> (map (\<lambda>(k, v). callback v k) before = map Returns tasks \<and> callback v k = Throws e \<longrightarrow>
       forEach (before @ (k, v) # after) callback = (map (\<lambda>(k, v). (v, k)) before @ [(v, k)], Rejects [e]))"
proof -
  have empty: "rejections tasks = []" if "set tasks \<subseteq> {Fulfilled}"
  proof (rule ccontr)
    assume "rejections tasks \<noteq> []"
    then obtain x where "x \<in> set (rejections tasks)" by (cases "rejections tasks") auto
    then have "Rejected x \<in> set tasks" by (simp add: rejections_mem)
    with that show False by auto
  qed
  have ne: "rejections tasks \<noteq> []" if "Rejected e \<in> set tasks"
    using that rejections_mem [of e tasks] by auto
  show ?thesis
    using empty ne
    by (auto simp: forEach_def launch_returns launch_throws Promise_all_def rejections_mem)
qed

theorem forEach_calls_witness:
  "map (\<lambda>(k, v). if k = ''b'' then Returns (Rejected ''no'') else Returns Pending)
       [(''a'', Some (JNum 1)), (''b'', Some (JNum 2)), (''c'', Some (JNum 3))]
     = map Returns [Pending, Rejected ''no'', Pending]
   \<and> fst (forEach [(''a'', Some (JNum 1)), (''b'', Some (JNum 2)), (''c'', Some (JNum 3))]
          (\<lambda>v k. if k = ''b'' then Returns (Rejected ''no'') else Returns Pending))
     = [(Some (JNum 1), ''a''), (Some (JNum 2), ''b''), (Some (JNum 3), ''c'')]
   \<and> Rejected ''no'' \<in> set [Pending, Rejected ''no'', Pending]
   \<and> snd (forEach [(''a'', Some (JNum 1)), (''b'', Some (JNum 2)), (''c'', Some (JNum 3))]
          (\<lambda>v k. if k = ''b'' then Returns (Rejected ''no'') else Returns Pending))
     = Rejects [''no'']
   \<and> map (\<lambda>(k, v). Returns (Fulfilled :: string settlement)) [(''a'', Some (JNum 1))] = map Returns [Fulfilled]
   \<and> set [Fulfilled :: string settlement] \<subseteq> {Fulfilled}
   \<and> snd (forEach [(''a'', Some (JNum 1))] (\<lambda>v k. Returns (Fulfilled :: string settlement))) = Fulfils
   \<and> map (\<lambda>(k, v). if k = ''b'' then Throws ''boom'' else Returns Fulfilled) [(''a'', Some (JNum 1))]
     = map Returns [Fulfilled]
   \<and> (if ''b'' = ''b'' then Throws ''boom'' else Returns Fulfilled) = Throws ''boom''
   \<and> forEach ([(''a'', Some (JNum 1))] @ (''b'', Some (JNum 2)) # [(''c'', Some (JNum 3))])
          (\<lambda>v k. if k = ''b'' then Throws ''boom'' else Returns Fulfilled)
     = (map (\<lambda>(k, v). (v, k)) [(''a'', Some (JNum 1))] @ [(Some (JNum 2), ''b'')], Rejects [''boom''])"
proof -
  note a = forEach_calls [where callback = "\<lambda>v k. if k = ''b'' then Returns (Rejected ''no'') else Returns Pending"
      and entries = "[(''a'', Some (JNum 1)), (''b'', Some (JNum 2)), (''c'', Some (JNum 3))]"
      and tasks = "[Pending, Rejected ''no'', Pending]" and e = "''no''", THEN conjunct1]
  note b = forEach_calls [where callback = "\<lambda>v k. Returns (Fulfilled :: string settlement)"
      and entries = "[(''a'', Some (JNum 1))]" and tasks = "[Fulfilled]", THEN conjunct1]
  note c = forEach_calls [where callback = "\<lambda>v k. if k = ''b'' then Throws ''boom'' else Returns Fulfilled"
      and tasks = "[Fulfilled]" and e = "''boom''" and before = "[(''a'', Some (JNum 1))]"
      and v = "Some (JNum 2)" and k = "''b''" and after = "[(''c'', Some (JNum 3))]", THEN conjunct2]
  show ?thesis
    using a b c by (simp add: Promise_all_def rejections_def List.map_filter_simps)
qed

text \<open>
  The claim as stated, one call for every entry, fails where a call throws: the second
  entry gets no call.
\<close>

theorem forEach_counterexample:
  "forEach [(''a'', Some (JNum 1)), (''b'', Some (JNum 2))] (\<lambda>v k. Throws ''boom'')
     = ([(Some (JNum 1), ''a'')], Rejects [''boom''])
   \<and> fst (forEach [(''a'', Some (JNum 1)), (''b'', Some (JNum 2))] (\<lambda>v k. Throws ''boom''))
     \<noteq> map (\<lambda>(k, v). (v, k)) [(''a'', Some (JNum 1)), (''b'', Some (JNum 2))]"
  by (simp add: forEach_def)











end
